theory Spec2Isabelle
  imports Main
begin

section \<open>Strings, as index.js uses them\<close>

text \<open>
  A JavaScript string is modelled as a \<^typ>\<open>string\<close>. Every string the program handles is
  GitHub data (URLs, logins, header values), which is ASCII; case mapping and white space
  are modelled for ASCII.
\<close>

definition startsWith :: "string \<Rightarrow> string \<Rightarrow> bool" where
  "startsWith s p = (take (length p) s = p)"

definition endsWith :: "string \<Rightarrow> string \<Rightarrow> bool" where
  "endsWith s p = (length p \<le> length s \<and> drop (length s - length p) s = p)"

text \<open>\<open>s.indexOf(c)\<close> for a one-character needle: the first position, or \<open>-1\<close>.\<close>

fun indexOf :: "string \<Rightarrow> char \<Rightarrow> int" where
  "indexOf [] c = - 1"
| "indexOf (x # xs) c =
     (if x = c then 0 else (let i = indexOf xs c in if i < 0 then - 1 else i + 1))"

text \<open>
  \<open>s.slice(a, b)\<close>: a negative bound counts from the end, both bounds are clamped to the
  string, and the result is empty when the end is not after the start.
\<close>

definition slice :: "string \<Rightarrow> int \<Rightarrow> int \<Rightarrow> string" where
  "slice s a b =
     (let n = int (length s);
          from = (if a < 0 then max (n + a) 0 else min a n);
          to = (if b < 0 then max (n + b) 0 else min b n)
      in take (nat (to - from)) (drop (nat from) s))"

text \<open>
  \<open>s.split(sep)\<close> for a non-empty separator: the pieces between the occurrences of
  \<open>sep\<close>, found from the left. The piece being read is kept reversed in \<open>acc\<close>.
\<close>

fun split_from :: "string \<Rightarrow> string \<Rightarrow> string \<Rightarrow> string list" where
  "split_from sep acc [] = [rev acc]"
| "split_from sep acc (c # cs) =
     (if startsWith (c # cs) sep
      then rev acc # split_from sep [] (drop (length sep - 1) cs)
      else split_from sep (c # acc) cs)"

definition split :: "string \<Rightarrow> string \<Rightarrow> string list" where
  "split s sep = (if sep = [] then map (\<lambda>c. [c]) s else split_from sep [] s)"

text \<open>\<open>xs.join(sep)\<close> on an array of strings.\<close>

fun join :: "string list \<Rightarrow> string \<Rightarrow> string" where
  "join [] sep = []"
| "join [x] sep = x"
| "join (x # y # ys) sep = x @ sep @ join (y # ys) sep"

definition toLowerCaseChar :: "char \<Rightarrow> char" where
  "toLowerCaseChar c =
     (case map_of (zip ''ABCDEFGHIJKLMNOPQRSTUVWXYZ'' ''abcdefghijklmnopqrstuvwxyz'') c of
        Some d \<Rightarrow> d
      | None \<Rightarrow> c)"

definition toLowerCase :: "string \<Rightarrow> string" where
  "toLowerCase s = map toLowerCaseChar s"

definition isSpace :: "char \<Rightarrow> bool" where
  "isSpace c = (c \<in> set [CHR '' '', CHR 0x09, CHR 0x0A, CHR 0x0B, CHR 0x0C, CHR 0x0D])"

definition trim :: "string \<Rightarrow> string" where
  "trim s = rev (dropWhile isSpace (rev (dropWhile isSpace s)))"

text \<open>The decimal text of a natural number, as template strings and property keys print it.\<close>

fun decimal :: "nat \<Rightarrow> string" where
  "decimal n =
     (if n < 10 then [''0123456789'' ! n]
      else decimal (n div 10) @ [''0123456789'' ! (n mod 10)])"

declare decimal.simps [simp del]

text \<open>The value of a string of decimal digits, read from the left.\<close>

definition isDigit :: "char \<Rightarrow> bool" where
  "isDigit c = (c \<in> set ''0123456789'')"

fun digitsValue :: "int \<Rightarrow> string \<Rightarrow> int" where
  "digitsValue acc [] = acc"
| "digitsValue acc (c # cs) = digitsValue (10 * acc + indexOf ''0123456789'' c) cs"

section \<open>JSON values\<close>

text \<open>
  A value the API returns or the program builds from it. An object is the list of its own
  properties in enumeration order (a JavaScript object has each key once, and enumerates
  its array-index keys first, in ascending order); an array is the list of its slots,
  \<open>None\<close> for a hole, which is what assigning past the end or skipping an index leaves
  behind. Numbers are integers: no branch of the program depends on a fraction. \<open>JUndef\<close>
  is \<open>undefined\<close>, the value of a property that was read but is not there.

  \<open>JObj kvs\<close> is an object whose prototype is \<open>Object.prototype\<close>, as \<open>JSON.parse\<close> and an
  object literal create it. \<open>JInh kvs p\<close> is an object whose prototype has been replaced
  through \<open>__proto__\<close>: by \<open>null\<close> (\<open>p = None\<close>) or by the object or array \<open>v\<close> (\<open>p = Some v\<close>).
  Arrays keep \<open>Array.prototype\<close>: the program never assigns a \<open>__proto__\<close> key to one.
\<close>

datatype json =
    JUndef
  | JNull
  | JBool bool
  | JNum int
  | JStr string
  | JArr "json option list"
  | JObj "(string \<times> json) list"
  | JInh "(string \<times> json) list" "json option"

text \<open>\<open>typeof v === 'object' && v !== null\<close>\<close>

fun isObject :: "json \<Rightarrow> bool" where
  "isObject (JArr xs) = True"
| "isObject (JObj kvs) = True"
| "isObject (JInh kvs p) = True"
| "isObject v = False"

text \<open>\<open>typeof v === 'string' && v.startsWith('http')\<close>\<close>

fun isUrl :: "json \<Rightarrow> bool" where
  "isUrl (JStr s) = startsWith s ''http''"
| "isUrl v = False"

text \<open>The condition of \<open>v ? a : b\<close>.\<close>

fun truthy :: "json \<Rightarrow> bool" where
  "truthy JUndef = False"
| "truthy JNull = False"
| "truthy (JBool b) = b"
| "truthy (JNum n) = (n \<noteq> 0)"
| "truthy (JStr s) = (s \<noteq> [])"
| "truthy (JArr xs) = True"
| "truthy (JObj kvs) = True"
| "truthy (JInh kvs p) = True"

text \<open>
  \<open>v.k\<close> for a value \<open>v\<close> that is neither \<open>null\<close> nor \<open>undefined\<close> and a key \<open>k\<close> that is one
  of the property names the program reads (none of them is \<open>__proto__\<close>, an array index,
  \<open>length\<close> or another name that \<open>Object.prototype\<close> or \<open>Array.prototype\<close> defines): the own
  property, else the property of the nearest object on the prototype chain, else
  \<open>undefined\<close>.
\<close>

fun getProp :: "json \<Rightarrow> string \<Rightarrow> json" where
  "getProp (JObj kvs) k = (case map_of kvs k of Some v \<Rightarrow> v | None \<Rightarrow> JUndef)"
| "getProp (JInh kvs None) k = (case map_of kvs k of Some v \<Rightarrow> v | None \<Rightarrow> JUndef)"
| "getProp (JInh kvs (Some proto)) k =
     (case map_of kvs k of Some v \<Rightarrow> v | None \<Rightarrow> getProp proto k)"
| "getProp v k = JUndef"

section \<open>removeUrlsFromObject\<close>

text \<open>
  The array an assignment loop leaves has the length of its last assigned index plus one:
  holes after the last kept element are not part of it.
\<close>

definition dropTrailingHoles :: "'a option list \<Rightarrow> 'a option list" where
  "dropTrailingHoles xs = rev (dropWhile (\<lambda>x. x = None) (rev xs))"

text \<open>
  \<open>for (let key in obj)\<close> over a string visits its indices, and \<open>obj[key]\<close> is the
  character there.
\<close>

fun charProps :: "nat \<Rightarrow> string \<Rightarrow> (string \<times> json) list" where
  "charProps i [] = []"
| "charProps i (c # cs) = (decimal i, JStr [c]) # charProps (Suc i) cs"

text \<open>
  An array index is the canonical decimal text of an integer below \<open>2^32 - 1\<close>. An object
  enumerates its own array-index keys first, in ascending order, and its other keys after
  them in the order of their creation: \<open>comesBefore k k'\<close> says that a new key \<open>k\<close> is
  enumerated before an existing key \<open>k'\<close>.
\<close>

definition isArrayIndex :: "string \<Rightarrow> bool" where
  "isArrayIndex k =
     (k \<noteq> [] \<and> list_all isDigit k \<and> (k = ''0'' \<or> hd k \<noteq> CHR ''0'') \<and>
      digitsValue 0 k < 4294967295)"

definition comesBefore :: "string \<Rightarrow> string \<Rightarrow> bool" where
  "comesBefore k k' =
     (isArrayIndex k \<and> (\<not> isArrayIndex k' \<or> digitsValue 0 k < digitsValue 0 k'))"

text \<open>Creating or overwriting the own data property \<open>k\<close> in a list of own properties.\<close>

fun ownSet :: "(string \<times> json) list \<Rightarrow> string \<Rightarrow> json \<Rightarrow> (string \<times> json) list" where
  "ownSet [] k x = [(k, x)]"
| "ownSet ((k', v') # kvs) k x =
     (if k' = k then (k, x) # kvs
      else if comesBefore k k' then (k, x) # (k', v') # kvs
      else (k', v') # ownSet kvs k x)"

fun setOwn :: "json \<Rightarrow> string \<Rightarrow> json \<Rightarrow> json" where
  "setOwn (JObj kvs) k x = JObj (ownSet kvs k x)"
| "setOwn (JInh kvs p) k x = JInh (ownSet kvs k x) p"
| "setOwn v k x = v"

text \<open>
  Looking up \<open>__proto__\<close> from an object finds the accessor of \<open>Object.prototype\<close>, unless an
  own data property of that name, or one of an object on the prototype chain, or a \<open>null\<close>
  prototype comes first.
\<close>

fun protoAccessor :: "json \<Rightarrow> bool" where
  "protoAccessor (JObj kvs) = (''__proto__'' \<notin> set (map fst kvs))"
| "protoAccessor (JInh kvs None) = False"
| "protoAccessor (JInh kvs (Some proto)) =
     (''__proto__'' \<notin> set (map fst kvs) \<and> protoAccessor proto)"
| "protoAccessor v = True"

fun setPrototype :: "json \<Rightarrow> json option \<Rightarrow> json" where
  "setPrototype (JObj kvs) p = JInh kvs p"
| "setPrototype (JInh kvs q) p = JInh kvs p"
| "setPrototype v p = v"

text \<open>
  \<open>newObj[key] = x\<close> (lines 104 and 106). For every key but \<open>__proto__\<close> the assignment
  creates an own property. For \<open>__proto__\<close>, when the lookup ends at the accessor of
  \<open>Object.prototype\<close> (as it does on the fresh \<open>{}\<close>), its setter runs: an object or array
  \<open>x\<close> becomes the prototype of \<open>newObj\<close>, \<open>null\<close> removes the prototype, and any other
  value is ignored; no own property is created.
\<close>

definition assign :: "json \<Rightarrow> string \<Rightarrow> json \<Rightarrow> json" where
  "assign newObj key x =
     (if key = ''__proto__'' \<and> protoAccessor newObj then
        (if isObject x then setPrototype newObj (Some x)
         else if x = JNull then setPrototype newObj None
         else newObj)
      else setOwn newObj key x)"

text \<open>
  The assignments of one run of the loop, in order: \<open>(key, Some x)\<close> for a key that is
  assigned \<open>x\<close>, \<open>(key, None)\<close> for a key that is visited and not assigned.
\<close>

fun assignAll :: "json \<Rightarrow> (string \<times> json option) list \<Rightarrow> json" where
  "assignAll newObj [] = newObj"
| "assignAll newObj ((key, None) # es) = assignAll newObj es"
| "assignAll newObj ((key, Some x) # es) = assignAll (assign newObj key x) es"

text \<open>
  The loop of lines 102-108. \<open>forIn v\<close> lists the keys \<open>for (let key in v)\<close> visits, each with
  what the loop body assigns for \<open>v[key]\<close>: a value that is an object or an array gets the
  recursive result, a string starting with \<open>http\<close> is not assigned, and every other value
  is copied. The keys of an object are its own keys (\<open>forInProps\<close>) followed by the keys it
  inherits from its prototype chain (\<open>forInProto\<close>) that no nearer object has; the keys of
  an array are the indices of its slots that are not holes (\<open>forInElems\<close>); the keys of a
  string are its indices. Over an array the result is an array (\<open>copyElems\<close>: a slot that is
  not assigned stays a hole); over anything else it is the object the assignments build
  from \<open>{}\<close>. Called on a number, a boolean, \<open>null\<close> or \<open>undefined\<close> the loop visits nothing
  and the empty object is returned.
\<close>

fun removeUrlsFromObject :: "json \<Rightarrow> json"
  and forInProps :: "(string \<times> json) list \<Rightarrow> (string \<times> json option) list"
  and forInElems :: "nat \<Rightarrow> json option list \<Rightarrow> (string \<times> json option) list"
  and forInProto :: "json option \<Rightarrow> (string \<times> json option) list"
  and forIn :: "json \<Rightarrow> (string \<times> json option) list"
  and copyElems :: "json option list \<Rightarrow> json option list" where
  "removeUrlsFromObject (JObj kvs) = assignAll (JObj []) (forInProps kvs)"
| "removeUrlsFromObject (JInh kvs p) =
     assignAll (JObj [])
       (forInProps kvs @ filter (\<lambda>e. fst e \<notin> set (map fst kvs)) (forInProto p))"
| "removeUrlsFromObject (JArr xs) = JArr (dropTrailingHoles (copyElems xs))"
| "removeUrlsFromObject (JStr s) =
     assignAll (JObj []) (map (\<lambda>e. (fst e, Some (snd e))) (charProps 0 s))"
| "removeUrlsFromObject JUndef = JObj []"
| "removeUrlsFromObject JNull = JObj []"
| "removeUrlsFromObject (JBool b) = JObj []"
| "removeUrlsFromObject (JNum n) = JObj []"
| "forInProps [] = []"
| "forInProps ((k, v) # kvs) =
     (k, if isObject v then Some (removeUrlsFromObject v)
         else if \<not> isUrl v then Some v
         else None) # forInProps kvs"
| "forInElems i [] = []"
| "forInElems i (None # xs) = forInElems (Suc i) xs"
| "forInElems i (Some v # xs) =
     (decimal i, if isObject v then Some (removeUrlsFromObject v)
                 else if \<not> isUrl v then Some v
                 else None) # forInElems (Suc i) xs"
| "forInProto None = []"
| "forInProto (Some proto) = forIn proto"
| "forIn (JObj kvs) = forInProps kvs"
| "forIn (JInh kvs p) =
     forInProps kvs @ filter (\<lambda>e. fst e \<notin> set (map fst kvs)) (forInProto p)"
| "forIn (JArr xs) = forInElems 0 xs"
| "forIn (JStr s) = map (\<lambda>e. (fst e, Some (snd e))) (charProps 0 s)"
| "forIn JUndef = []"
| "forIn JNull = []"
| "forIn (JBool b) = []"
| "forIn (JNum n) = []"
| "copyElems [] = []"
| "copyElems (None # xs) = None # copyElems xs"
| "copyElems (Some v # xs) =
     (if isObject v then Some (removeUrlsFromObject v) # copyElems xs
      else if \<not> isUrl v then Some v # copyElems xs
      else None # copyElems xs)"

text \<open>A path into a value: own keys of objects and indices of arrays.\<close>

datatype step = Key string | Index nat

fun valueAt :: "json \<Rightarrow> step list \<Rightarrow> json option" where
  "valueAt v [] = Some v"
| "valueAt (JObj kvs) (Key k # p) = (case map_of kvs k of Some v \<Rightarrow> valueAt v p | None \<Rightarrow> None)"
| "valueAt (JInh kvs q) (Key k # p) = (case map_of kvs k of Some v \<Rightarrow> valueAt v p | None \<Rightarrow> None)"
| "valueAt (JArr xs) (Index i # p) =
     (if i < length xs then (case xs ! i of Some v \<Rightarrow> valueAt v p | None \<Rightarrow> None) else None)"
| "valueAt v (s # p) = None"

text \<open>
  A tree as \<open>JSON.parse\<close> builds it, without a key named \<open>__proto__\<close>: every object has the
  default prototype and its keys are distinct, in enumeration order and not \<open>__proto__\<close>.
\<close>

definition goodKeys :: "string list \<Rightarrow> bool" where
  "goodKeys ks =
     (distinct ks \<and> ''__proto__'' \<notin> set ks \<and> sorted_wrt (\<lambda>a b. \<not> comesBefore b a) ks)"

fun plainTree :: "json \<Rightarrow> bool"
  and plainFields :: "(string \<times> json) list \<Rightarrow> bool"
  and plainSlots :: "json option list \<Rightarrow> bool" where
  "plainTree (JObj kvs) = (goodKeys (map fst kvs) \<and> plainFields kvs)"
| "plainTree (JArr xs) = plainSlots xs"
| "plainTree (JInh kvs p) = False"
| "plainTree (JStr s) = True"
| "plainTree JUndef = True"
| "plainTree JNull = True"
| "plainTree (JBool b) = True"
| "plainTree (JNum n) = True"
| "plainFields [] = True"
| "plainFields ((k, v) # kvs) = (plainTree v \<and> plainFields kvs)"
| "plainSlots [] = True"
| "plainSlots (None # xs) = plainSlots xs"
| "plainSlots (Some v # xs) = (plainTree v \<and> plainSlots xs)"

text \<open>
  What the loop computes on such a tree, written as a filter: an auxiliary function for
  the proofs about \<open>removeUrlsFromObject\<close> (lemma \<open>removeUrls_plainTree\<close>), not a model of the
  code. (On an object with a replaced prototype it filters the own properties.)
\<close>

fun stripTree :: "json \<Rightarrow> json"
  and stripFields :: "(string \<times> json) list \<Rightarrow> (string \<times> json) list"
  and stripSlots :: "json option list \<Rightarrow> json option list" where
  "stripTree (JObj kvs) = JObj (stripFields kvs)"
| "stripTree (JArr xs) = JArr (dropTrailingHoles (stripSlots xs))"
| "stripTree (JStr s) = JObj (charProps 0 s)"
| "stripTree JUndef = JObj []"
| "stripTree JNull = JObj []"
| "stripTree (JBool b) = JObj []"
| "stripTree (JNum n) = JObj []"
| "stripTree (JInh kvs p) = JObj (stripFields kvs)"
| "stripFields [] = []"
| "stripFields ((k, v) # kvs) =
     (if isObject v then (k, stripTree v) # stripFields kvs
      else if \<not> isUrl v then (k, v) # stripFields kvs
      else stripFields kvs)"
| "stripSlots [] = []"
| "stripSlots (None # xs) = None # stripSlots xs"
| "stripSlots (Some v # xs) =
     (if isObject v then Some (stripTree v) # stripSlots xs
      else if \<not> isUrl v then Some v # stripSlots xs
      else None # stripSlots xs)"

text \<open>The assignments of a list of visits that assign.\<close>

fun assigned :: "(string \<times> json option) list \<Rightarrow> (string \<times> json) list" where
  "assigned [] = []"
| "assigned ((k, None) # es) = assigned es"
| "assigned ((k, Some x) # es) = (k, x) # assigned es"

section \<open>The transport: axiosInstance and its response interceptor\<close>

text \<open>
  A JavaScript number that may be \<open>NaN\<close>, with the subtraction and the product the
  interceptor computes.
\<close>

datatype jsnum = NaN | Num int

fun jsMinus :: "jsnum \<Rightarrow> jsnum \<Rightarrow> jsnum" where
  "jsMinus (Num a) (Num b) = Num (a - b)"
| "jsMinus a b = NaN"

fun jsTimes :: "jsnum \<Rightarrow> jsnum \<Rightarrow> jsnum" where
  "jsTimes (Num a) (Num b) = Num (a * b)"
| "jsTimes a b = NaN"

text \<open>
  The number a header value is coerced to by \<open>-\<close>: a missing header is \<open>undefined\<close> and
  gives \<open>NaN\<close>, the empty string gives 0, a string of decimal digits its value. GitHub
  sends the reset time as decimal digits; other numeric spellings that JavaScript also
  accepts (sign, fraction, exponent, radix prefix, surrounding blanks) are not modelled and
  read as \<open>NaN\<close> here.
\<close>

definition toNumber :: "string option \<Rightarrow> jsnum" where
  "toNumber h =
     (case h of
        None \<Rightarrow> NaN
      | Some s \<Rightarrow> if list_all isDigit s then Num (digitsValue 0 s) else NaN)"

text \<open>
  A resolved response: its body and its headers. The body's type is the JSON schema of
  the endpoint: a typed list for the listings, a \<^typ>\<open>json\<close> tree for the protection lookup.
\<close>

record 'a response =
  data :: 'a
  headers :: "string \<Rightarrow> string option"

text \<open>
  A rejected request: \<open>Status n\<close> is an error with \<open>error.response.status = n\<close>, \<open>Network\<close>
  one without a response (time-out, connection failure), \<open>TypeError\<close> the exception of
  reading a property of \<open>null\<close> or \<open>undefined\<close>.
\<close>

datatype error = Status nat | Network | TypeError

datatype 'a reply = Resolve "'a response" | Reject error

text \<open>
  The response interceptor (lines 42-60), given the reading of the clock in milliseconds.
  It returns the argument of \<open>setTimeout\<close> when it defers the response, \<open>None\<close> when it
  hands the response on at once, and the response it delivers.
\<close>

definition responseInterceptor :: "int \<Rightarrow> 'a response \<Rightarrow> jsnum option \<times> 'a response" where
  "responseInterceptor now response =
     (case headers response ''x-ratelimit-remaining'' of
        None \<Rightarrow> (None, response)
      | Some remaining \<Rightarrow>
          if remaining \<noteq> [] \<and> remaining = ''0'' then
            (let resetTime = headers response ''x-ratelimit-reset'';
                 currentTime = now div 1000;
                 delay = jsMinus (toNumber resetTime) (Num currentTime)
             in (Some (jsTimes delay (Num 1000)), response))
          else (None, response))"

text \<open>
  What a run does to the outside world, in order: the requests it sends and the timers it
  waits for (\<open>sleep(ms)\<close> and the interceptor's delay are both \<open>setTimeout\<close>); and the
  files it has written. Console output is not modelled.
\<close>

datatype event = Get string | SetTimeout jsnum

record world =
  trace :: "event list"
  files :: "string \<Rightarrow> string option"

fun urlsOf :: "event list \<Rightarrow> string list" where
  "urlsOf [] = []"
| "urlsOf (Get u # es) = u # urlsOf es"
| "urlsOf (SetTimeout d # es) = urlsOf es"

definition requested :: "world \<Rightarrow> string list" where
  "requested w = urlsOf (trace w)"

definition sleep :: "int \<Rightarrow> world \<Rightarrow> world" where
  "sleep ms w = w\<lparr>trace := trace w @ [SetTimeout (Num ms)]\<rparr>"

text \<open>
  \<open>await axiosInstance.get(url)\<close>. The remote side is a function \<open>srv\<close> from the number of
  requests sent before this one and the URL to the outcome, so that the same URL may be
  answered differently later in the run; \<open>clk\<close> is the clock read when that answer arrives.
  A rejection passes the interceptor's error handler unchanged.
\<close>

definition axiosInstance_get ::
  "(nat \<Rightarrow> string \<Rightarrow> 'a reply) \<Rightarrow> (nat \<Rightarrow> int) \<Rightarrow> string \<Rightarrow> world \<Rightarrow> 'a reply \<times> world" where
  "axiosInstance_get srv clk url w =
     (let k = length (requested w);
          w1 = w\<lparr>trace := trace w @ [Get url]\<rparr>
      in case srv k url of
           Reject e \<Rightarrow> (Reject e, w1)
         | Resolve r \<Rightarrow>
             (case responseInterceptor (clk k) r of
                (None, r') \<Rightarrow> (Resolve r', w1)
              | (Some ms, r') \<Rightarrow> (Resolve r', w1\<lparr>trace := trace w1 @ [SetTimeout ms]\<rparr>)))"

section \<open>getRepos\<close>

text \<open>Lines 82-93: the next URL read from the \<open>link\<close> header, \<open>None\<close> for \<open>null\<close>.\<close>

definition nextUrl :: "'a response \<Rightarrow> string option" where
  \<open>nextUrl response =
     (case headers response ''link'' of
        None \<Rightarrow> None
      | Some link \<Rightarrow>
          if link = [] then None
          else (case find (\<lambda>l. endsWith l ''rel="next"'') (split link '', '') of
                  None \<Rightarrow> None
                | Some nextLink \<Rightarrow>
                    if nextLink = [] then None
                    else Some (slice nextLink (indexOf nextLink CHR ''<'' + 1)
                                 (indexOf nextLink CHR ''>''))))\<close>

text \<open>
  The \<open>while (url)\<close> loop of lines 67-94 with its variables \<open>url\<close> and \<open>repos\<close>; \<open>null\<close>
  (\<open>None\<close>) and the empty string end it. It need not end
  (a server that answers 403 for ever, or whose next links form a cycle): \<open>None\<close> is a run
  that never returns, \<open>Some (Inl e, w)\<close> a thrown error, \<open>Some (Inr repos, w)\<close> the return.
\<close>

partial_function (option) getRepos_loop ::
  "(nat \<Rightarrow> string \<Rightarrow> 'a list reply) \<Rightarrow> (nat \<Rightarrow> int) \<Rightarrow> string option \<Rightarrow> 'a list \<Rightarrow> world
     \<Rightarrow> ((error + 'a list) \<times> world) option" where
  "getRepos_loop srv clk url repos w =
     (case url of
        None \<Rightarrow> Some (Inr repos, w)
      | Some u \<Rightarrow>
          if u = [] then Some (Inr repos, w)
          else (case axiosInstance_get srv clk u w of
                  (Reject e, w1) \<Rightarrow>
                    if e = Status 403 then getRepos_loop srv clk url repos (sleep 60000 w1)
                    else Some (Inl e, w1)
                | (Resolve response, w1) \<Rightarrow>
                    getRepos_loop srv clk (nextUrl response) (repos @ data response) w1))"

definition reposUrl :: "string \<Rightarrow> string" where
  "reposUrl orgName = ''https://api.github.com/orgs/'' @ orgName @ ''/repos?per_page=100''"

definition getRepos ::
  "(nat \<Rightarrow> string \<Rightarrow> 'a list reply) \<Rightarrow> (nat \<Rightarrow> int) \<Rightarrow> string \<Rightarrow> world
     \<Rightarrow> ((error + 'a list) \<times> world) option" where
  "getRepos srv clk orgName w = getRepos_loop srv clk (Some (reposUrl orgName)) [] w"

section \<open>getBranchProtectionRules\<close>

record repository =
  name :: string
  default_branch :: string

text \<open>The object a protection lookup returns: \<open>{ name: ..., protection: ... }\<close>.\<close>

record rule =
  rule_name :: json
  protection :: json

definition protectionUrl :: "string \<Rightarrow> repository \<Rightarrow> string" where
  "protectionUrl orgName repo =
     ''https://api.github.com/repos/'' @ orgName @ ''/'' @ name repo @ ''/branches/''
       @ default_branch repo @ ''/protection''"

text \<open>Lines 127-143, from \<open>response.data\<close>.\<close>

definition parsedProtection :: "json \<Rightarrow> json" where
  "parsedProtection d =
     (let rpr = getProp d ''required_pull_request_reviews'' in
      JObj
       [(''required_pull_request_reviews'', JBool (if truthy rpr then True else False)),
        (''required_pull_request_reviews_count'',
           if truthy rpr then getProp rpr ''required_approving_review_count'' else JNum 0),
        (''required_pull_request_reviews_code_owners'',
           if truthy rpr then getProp rpr ''require_code_owner_reviews'' else JBool False),
        (''required_signatures'', getProp d ''required_signatures''),
        (''enforce_admins'', getProp d ''enforce_admins''),
        (''restrictions'', JBool (if truthy (getProp d ''restrictions'') then True else False)),
        (''required_linear_history'', getProp d ''required_linear_history''),
        (''allow_force_pushes'', getProp d ''allow_force_pushes''),
        (''allow_deletions'', getProp d ''allow_deletions''),
        (''block_creations'', getProp d ''block_creations''),
        (''required_conversation_resolution'', getProp d ''required_conversation_resolution''),
        (''lock_branch'', getProp d ''lock_branch''),
        (''allow_fork_syncing'', getProp d ''allow_fork_syncing'')])"

text \<open>
  Lines 113-148. Reading \<open>response.data.required_pull_request_reviews\<close> throws a
  \<open>TypeError\<close> when the body is \<open>null\<close> or \<open>undefined\<close>.
\<close>

definition getBranchProtectionRules ::
  "(nat \<Rightarrow> string \<Rightarrow> json reply) \<Rightarrow> (nat \<Rightarrow> int) \<Rightarrow> string \<Rightarrow> repository \<Rightarrow> world
     \<Rightarrow> (error + rule) \<times> world" where
  "getBranchProtectionRules srv clk orgName repo w =
     (case axiosInstance_get srv clk (protectionUrl orgName repo) w of
        (Reject e, w1) \<Rightarrow>
          if e = Status 404
          then (Inr \<lparr>rule_name = JStr (default_branch repo),
                     protection = JObj [(''enabled'', JBool False)]\<rparr>, w1)
          else (Inl e, w1)
      | (Resolve response, w1) \<Rightarrow>
          if data response = JNull \<or> data response = JUndef then (Inl TypeError, w1)
          else (Inr \<lparr>rule_name = getProp (data response) ''name'',
                     protection = removeUrlsFromObject (parsedProtection (data response))\<rparr>,
                w1))"

section \<open>getOrgOwners and getRepoAdmins\<close>

text \<open>
  An element of a member or collaborator listing: its \<open>login\<close> and, for a collaborator,
  \<open>permissions.admin\<close> (the member listing does not read it).
\<close>

record user =
  login :: string
  permissions_admin :: bool

definition membersUrl :: "string \<Rightarrow> string" where
  "membersUrl orgName = ''https://api.github.com/orgs/'' @ orgName @ ''/members?role=admin''"

definition getOrgOwners ::
  "(nat \<Rightarrow> string \<Rightarrow> user list reply) \<Rightarrow> (nat \<Rightarrow> int) \<Rightarrow> string \<Rightarrow> world
     \<Rightarrow> (error + string list) \<times> world" where
  "getOrgOwners srv clk orgName w =
     (case axiosInstance_get srv clk (membersUrl orgName) w of
        (Reject e, w1) \<Rightarrow> (Inl e, w1)
      | (Resolve response, w1) \<Rightarrow> (Inr (map login (data response)), w1))"

definition collaboratorsUrl :: "string \<Rightarrow> repository \<Rightarrow> string" where
  "collaboratorsUrl orgName repo =
     ''https://api.github.com/repos/'' @ orgName @ ''/'' @ name repo
       @ ''/collaborators?permission=admin''"

definition getRepoAdmins ::
  "(nat \<Rightarrow> string \<Rightarrow> user list reply) \<Rightarrow> (nat \<Rightarrow> int) \<Rightarrow> string \<Rightarrow> repository \<Rightarrow> world
     \<Rightarrow> (error + string) \<times> world" where
  "getRepoAdmins srv clk orgName repo w =
     (case axiosInstance_get srv clk (collaboratorsUrl orgName repo) w of
        (Reject e, w1) \<Rightarrow> (Inl e, w1)
      | (Resolve response, w1) \<Rightarrow>
          (Inr (join (map login (filter permissions_admin (data response))) ''; ''), w1))"

section \<open>main\<close>

text \<open>
  The remote API as one run sees it, one function for each endpoint (each has its own
  body type), and the clock.
\<close>

record remote =
  orgReply :: "nat \<Rightarrow> string \<Rightarrow> unit reply"
  membersReply :: "nat \<Rightarrow> string \<Rightarrow> user list reply"
  reposReply :: "nat \<Rightarrow> string \<Rightarrow> repository list reply"
  protectionReply :: "nat \<Rightarrow> string \<Rightarrow> json reply"
  collaboratorsReply :: "nat \<Rightarrow> string \<Rightarrow> user list reply"
  clock :: "nat \<Rightarrow> int"

text \<open>The parsed arguments; a missing one is the empty string.\<close>

record config =
  githubToken :: string
  orgName :: string

text \<open>What \<open>new Date()\<close> of line 203 reads, by its getters.\<close>

record date =
  getFullYear :: nat
  getMonth :: nat
  getDate :: nat
  getHours :: nat
  getMinutes :: nat
  getSeconds :: nat

text \<open>How a run of \<open>main\<close> ends: it returns, \<open>process.exit(n)\<close>, or an error is thrown.\<close>

datatype outcome = Returned | Exited nat | Threw error

text \<open>
  Lines 174-195: the organisation lookup, repeated while it is answered 403.
\<close>

partial_function (option) validateOrg ::
  "(nat \<Rightarrow> string \<Rightarrow> unit reply) \<Rightarrow> (nat \<Rightarrow> int) \<Rightarrow> string option \<Rightarrow> world
     \<Rightarrow> ((outcome + unit) \<times> world) option" where
  "validateOrg srv clk url w =
     (case url of
        None \<Rightarrow> Some (Inr (), w)
      | Some u \<Rightarrow>
          if u = [] then Some (Inr (), w)
          else (case axiosInstance_get srv clk u w of
                  (Reject e, w1) \<Rightarrow>
                    if e = Status 401 then Some (Inl (Exited 1), w1)
                    else if e = Status 404 then Some (Inl (Exited 1), w1)
                    else if e = Status 403 then validateOrg srv clk url (sleep 60000 w1)
                    else Some (Inl (Threw e), w1)
                | (Resolve response, w1) \<Rightarrow> validateOrg srv clk None w1))"

text \<open>Lines 213-215: from the string \<open>getRepoAdmins\<close> returned to the \<open>admins\<close> column.\<close>

definition adminExceptions :: "string list \<Rightarrow> string \<Rightarrow> string" where
  "adminExceptions orgOwners admins =
     join (filter (\<lambda>admin. admin \<notin> set orgOwners)
             (map (\<lambda>admin. toLowerCase (trim admin)) (split admins '';''))) '';''"

text \<open>
  \<open>v == false\<close>. The operand here is \<open>rule.protection.enabled\<close>, which is \<open>false\<close> or
  \<open>undefined\<close> (lemma \<open>enabled_operand\<close> below). For a string or an array JavaScript
  compares the number its text denotes with 0, which is modelled for the empty string, the
  string \<open>0\<close> and the empty array only; an object with a replaced prototype is compared
  like a plain object.
\<close>

fun eqFalse :: "json \<Rightarrow> bool" where
  "eqFalse JUndef = False"
| "eqFalse JNull = False"
| "eqFalse (JBool b) = (\<not> b)"
| "eqFalse (JNum n) = (n = 0)"
| "eqFalse (JStr s) = (s = [] \<or> s = ''0'')"
| "eqFalse (JArr xs) = (xs = [])"
| "eqFalse (JObj kvs) = False"
| "eqFalse (JInh kvs p) = False"

text \<open>The object of lines 219-236 that is handed to the CSV parser.\<close>

record report_row =
  repo :: string
  branch :: string
  enabled :: bool
  required_pull_request_reviews_count :: json
  required_pull_request_reviews_code_owners :: json
  restrictions :: json
  required_signatures :: json
  enforce_admins :: json
  required_linear_history :: json
  allow_force_pushes :: json
  allow_deletions :: json
  block_creations :: json
  admins :: string

text \<open>\<open>(p.k) ? p.k.enabled : undefined\<close>\<close>

definition enabledOf :: "json \<Rightarrow> string \<Rightarrow> json" where
  "enabledOf p k = (if truthy (getProp p k) then getProp (getProp p k) ''enabled'' else JUndef)"

definition reportRow :: "repository \<Rightarrow> rule \<Rightarrow> string \<Rightarrow> report_row" where
  "reportRow r rl adminsColumn =
     \<lparr>repo = name r,
      branch = default_branch r,
      enabled = (if eqFalse (getProp (protection rl) ''enabled'') then False else True),
      required_pull_request_reviews_count =
        getProp (protection rl) ''required_pull_request_reviews_count'',
      required_pull_request_reviews_code_owners =
        getProp (protection rl) ''required_pull_request_reviews_code_owners'',
      restrictions = getProp (protection rl) ''restrictions'',
      required_signatures = enabledOf (protection rl) ''required_signatures'',
      enforce_admins = enabledOf (protection rl) ''enforce_admins'',
      required_linear_history = enabledOf (protection rl) ''required_linear_history'',
      allow_force_pushes = enabledOf (protection rl) ''allow_force_pushes'',
      allow_deletions = enabledOf (protection rl) ''allow_deletions'',
      block_creations = enabledOf (protection rl) ''block_creations'',
      admins = adminsColumn\<rparr>"

definition writeFileSync :: "string \<Rightarrow> string \<Rightarrow> world \<Rightarrow> world" where
  "writeFileSync fileName text w = w\<lparr>files := (files w)(fileName \<mapsto> text)\<rparr>"

definition appendFileSync :: "string \<Rightarrow> string \<Rightarrow> world \<Rightarrow> world" where
  "appendFileSync fileName text w =
     w\<lparr>files := (files w)(fileName \<mapsto>
          (case files w fileName of None \<Rightarrow> [] | Some old \<Rightarrow> old) @ text)\<rparr>"

text \<open>
  Lines 218-240: the text appended for one repository. \<open>parse\<close> is \<open>Parser.parse\<close> of the
  json2csv package with \<open>header: false\<close>, a function of the row object; the program removes
  every double quote from its result and adds a line feed.
\<close>

definition reportLine :: "(report_row \<Rightarrow> string) \<Rightarrow> report_row \<Rightarrow> string" where
  "reportLine parse row = filter (\<lambda>c. c \<noteq> CHR 0x22) (parse row) @ [CHR 0x0A]"

text \<open>The \<open>for (const repo of repos)\<close> loop of lines 210-242.\<close>

fun reportRepos ::
  "remote \<Rightarrow> string \<Rightarrow> string list \<Rightarrow> string \<Rightarrow> (report_row \<Rightarrow> string) \<Rightarrow> repository list
     \<Rightarrow> world \<Rightarrow> (error + unit) \<times> world" where
  "reportRepos api org orgOwners fileName parse [] w = (Inr (), w)"
| "reportRepos api org orgOwners fileName parse (r # repos) w =
     (case getBranchProtectionRules (protectionReply api) (clock api) org r w of
        (Inl e, w1) \<Rightarrow> (Inl e, w1)
      | (Inr rl, w1) \<Rightarrow>
          (case getRepoAdmins (collaboratorsReply api) (clock api) org r w1 of
             (Inl e, w2) \<Rightarrow> (Inl e, w2)
           | (Inr fetched, w2) \<Rightarrow>
               reportRepos api org orgOwners fileName parse repos
                 (appendFileSync fileName
                    (reportLine parse (reportRow r rl (adminExceptions orgOwners fetched))) w2)))"

definition orgUrl :: "string \<Rightarrow> string" where
  "orgUrl org = ''https://api.github.com/orgs/'' @ org"

definition reportFileName :: "string \<Rightarrow> date \<Rightarrow> string" where
  "reportFileName org d =
     (let dateString = decimal (getFullYear d) @ ''-'' @ decimal (getMonth d + 1) @ ''-''
                         @ decimal (getDate d);
          timeString = decimal (getHours d) @ '':'' @ decimal (getMinutes d) @ '':''
                         @ decimal (getSeconds d)
      in org @ ''-'' @ dateString @ ''_'' @ timeString @ ''-branch-protection-report.csv'')"

text \<open>The string of line 207.\<close>

definition headerText :: string where
  "headerText =
     ''repo,branch,enabled,required_pull_request_reviews_count,required_pull_request_reviews_code_owners,restrictions,required_signatures,enforce_admins,required_linear_history,allow_force_pushes,allow_deletions,block_creations,admins ''
       @ [CHR 0x0A]"

text \<open>
  Lines 165-243. \<open>None\<close> is a run that never returns; otherwise the outcome and the world
  the run leaves.
\<close>

definition main ::
  "config \<Rightarrow> remote \<Rightarrow> date \<Rightarrow> (report_row \<Rightarrow> string) \<Rightarrow> world \<Rightarrow> (outcome \<times> world) option" where
  "main cfg api today parse w =
     (if githubToken cfg = [] \<or> orgName cfg = [] then Some (Exited 1, w)
      else case validateOrg (orgReply api) (clock api) (Some (orgUrl (orgName cfg))) w of
        None \<Rightarrow> None
      | Some (Inl out, w1) \<Rightarrow> Some (out, w1)
      | Some (Inr u, w1) \<Rightarrow>
          (case getOrgOwners (membersReply api) (clock api) (orgName cfg) w1 of
             (Inl e, w2) \<Rightarrow> Some (Threw e, w2)
           | (Inr owners, w2) \<Rightarrow>
               (let orgOwners = map toLowerCase owners in
                case getRepos (reposReply api) (clock api) (orgName cfg) w2 of
                  None \<Rightarrow> None
                | Some (Inl e, w3) \<Rightarrow> Some (Threw e, w3)
                | Some (Inr repos, w3) \<Rightarrow>
                    (let fileName = reportFileName (orgName cfg) today;
                         w4 = writeFileSync fileName headerText w3
                     in case reportRepos api (orgName cfg) orgOwners fileName parse repos w4 of
                          (Inl e, w5) \<Rightarrow> Some (Threw e, w5)
                        | (Inr u, w5) \<Rightarrow> Some (Returned, w5)))))"

section \<open>Link headers and pages\<close>

text \<open>
  The \<open>link\<close> header GitHub sends: entries \<open><url>; rel="relation"\<close> joined by a comma and a
  blank. An entry is given as the pair of its URL and its relation.
\<close>

definition linkEntry :: "string \<times> string \<Rightarrow> string" where
  \<open>linkEntry e = ''<'' @ fst e @ ''>; rel="'' @ snd e @ ''"''\<close>

definition linkHeader :: "(string \<times> string) list \<Rightarrow> string" where
  "linkHeader es = join (map linkEntry es) '', ''"

text \<open>
  A URL in a link header has no blank and no \<open>>\<close> (it is percent-encoded), and a relation
  type has no blank and no double quote.
\<close>

definition wfLink :: "string \<times> string \<Rightarrow> bool" where
  "wfLink e =
     (CHR '' '' \<notin> set (fst e) \<and> CHR ''>'' \<notin> set (fst e) \<and>
      CHR '' '' \<notin> set (snd e) \<and> CHR 0x22 \<notin> set (snd e))"

text \<open>
  One page of a listing: the URL it is served at, its items, and the entries of its
  \<open>link\<close> header (\<open>None\<close>: the response has no such header).
\<close>

record 'a page =
  pageUrl :: string
  pageItems :: "'a list"
  pageLinks :: "(string \<times> string) list option"

text \<open>The URL of the first entry of a page whose relation is \<open>next\<close>.\<close>

definition nextOf :: "'a page \<Rightarrow> string option" where
  "nextOf pg =
     (case pageLinks pg of
        None \<Rightarrow> None
      | Some es \<Rightarrow> map_option fst (find (\<lambda>e. snd e = ''next'') es))"

text \<open>
  A sequence of pages: each page but the last has a \<open>next\<close> entry that names the following
  page, and the last page has none.
\<close>

fun pageChain :: "'a page list \<Rightarrow> bool" where
  "pageChain [] = False"
| "pageChain [pg] = (nextOf pg = None)"
| "pageChain (pg # pg' # pgs) =
     (nextOf pg = Some (pageUrl pg') \<and> pageUrl pg' \<noteq> [] \<and> pageChain (pg' # pgs))"

text \<open>Every entry of the page's \<open>link\<close> header is well formed.\<close>

definition wfPage :: "'a page \<Rightarrow> bool" where
  "wfPage pg = (case pageLinks pg of None \<Rightarrow> True | Some es \<Rightarrow> list_all wfLink es)"

text \<open>The \<open>k\<close>-th request of the run, sent to the page's URL, is answered with the page.\<close>

definition servesPage :: "(nat \<Rightarrow> string \<Rightarrow> 'a list reply) \<Rightarrow> nat \<Rightarrow> 'a page \<Rightarrow> bool" where
  "servesPage srv k pg =
     (case srv k (pageUrl pg) of
        Resolve r \<Rightarrow> data r = pageItems pg \<and> headers r ''link'' = map_option linkHeader (pageLinks pg)
      | Reject e \<Rightarrow> False)"

section \<open>Returning lookups\<close>

text \<open>
  Both lookups for a repository return, the protection lookup being the \<open>k\<close>-th request of
  the run: it is resolved (with a body) or rejected with 404, and the collaborator lookup
  after it is resolved.
\<close>

definition lookupsReturn :: "remote \<Rightarrow> string \<Rightarrow> nat \<Rightarrow> repository \<Rightarrow> bool" where
  "lookupsReturn api org k r =
     ((case protectionReply api k (protectionUrl org r) of
         Resolve response \<Rightarrow> data response \<noteq> JNull \<and> data response \<noteq> JUndef
       | Reject e \<Rightarrow> e = Status 404) \<and>
      (case collaboratorsReply api (Suc k) (collaboratorsUrl org r) of
         Resolve response \<Rightarrow> True
       | Reject e \<Rightarrow> False))"

section \<open>Example data\<close>

text \<open>
  A listing of three items in two pages, and the server that answers with them, its
  \<open>link\<close> headers as GitHub prints them.
\<close>

definition examplePages :: "string page list" where
  "examplePages =
     [\<lparr>pageUrl = ''https://api.github.com/orgs/acme/repos?per_page=100'',
       pageItems = [''app'', ''docs''],
       pageLinks = Some [(''https://api.github.com/organizations/1/repos?per_page=100&page=2'', ''next''),
                         (''https://api.github.com/organizations/1/repos?per_page=100&page=2'', ''last'')]\<rparr>,
      \<lparr>pageUrl = ''https://api.github.com/organizations/1/repos?per_page=100&page=2'',
       pageItems = [''site''],
       pageLinks = Some [(''https://api.github.com/organizations/1/repos?per_page=100&page=1'', ''prev''),
                         (''https://api.github.com/organizations/1/repos?per_page=100&page=1'', ''first'')]\<rparr>]"

definition exampleListing :: "nat \<Rightarrow> string \<Rightarrow> string list reply" where
  \<open>exampleListing k u =
     (if u = ''https://api.github.com/orgs/acme/repos?per_page=100'' then
        Resolve \<lparr>data = [''app'', ''docs''],
                 headers = [''link'' \<mapsto>
                   ''<https://api.github.com/organizations/1/repos?per_page=100&page=2>; rel="next", <https://api.github.com/organizations/1/repos?per_page=100&page=2>; rel="last"'']\<rparr>
      else if u = ''https://api.github.com/organizations/1/repos?per_page=100&page=2'' then
        Resolve \<lparr>data = [''site''],
                 headers = [''link'' \<mapsto>
                   ''<https://api.github.com/organizations/1/repos?per_page=100&page=1>; rel="prev", <https://api.github.com/organizations/1/repos?per_page=100&page=1>; rel="first"'']\<rparr>
      else Reject (Status 404))\<close>

text \<open>An organisation with two repositories, the first protected, the second not.\<close>

definition exampleRepos :: "repository list" where
  "exampleRepos = [\<lparr>name = ''app'', default_branch = ''main''\<rparr>,
                   \<lparr>name = ''docs'', default_branch = ''trunk''\<rparr>]"

text \<open>
  Its API: \<open>app\<close> has a protection rule and two admin collaborators, one of them the
  organisation owner; \<open>docs\<close> has no rule (404) and no admin collaborator.
\<close>

definition exampleApi :: remote where
  "exampleApi =
     \<lparr>orgReply = (\<lambda>k u. Resolve \<lparr>data = (), headers = (\<lambda>h. None)\<rparr>),
      membersReply = (\<lambda>k u. Resolve \<lparr>data = [\<lparr>login = ''Alice'', permissions_admin = False\<rparr>],
                                       headers = (\<lambda>h. None)\<rparr>),
      reposReply = (\<lambda>k u. Resolve \<lparr>data = exampleRepos, headers = (\<lambda>h. None)\<rparr>),
      protectionReply = (\<lambda>k u.
        if u = ''https://api.github.com/repos/acme/app/branches/main/protection''
        then Resolve \<lparr>data = JObj [(''url'', JStr ''https://api.github.com/repos/acme/app/branches/main/protection''),
                                   (''required_pull_request_reviews'',
                                      JObj [(''required_approving_review_count'', JNum 2),
                                            (''require_code_owner_reviews'', JBool True)]),
                                   (''enforce_admins'', JObj [(''url'', JStr ''https://api.github.com/e''),
                                                              (''enabled'', JBool True)])],
                      headers = (\<lambda>h. None)\<rparr>
        else Reject (Status 404)),
      collaboratorsReply = (\<lambda>k u.
        if u = ''https://api.github.com/repos/acme/app/collaborators?permission=admin''
        then Resolve \<lparr>data = [\<lparr>login = ''Alice'', permissions_admin = True\<rparr>,
                               \<lparr>login = ''Carol'', permissions_admin = True\<rparr>],
                      headers = (\<lambda>h. None)\<rparr>
        else Resolve \<lparr>data = [], headers = (\<lambda>h. None)\<rparr>),
      clock = (\<lambda>k. 1700000000000)\<rparr>"

text \<open>A stand-in for the CSV parser that prints four of the columns, strings quoted.\<close>

definition exampleParse :: "report_row \<Rightarrow> string" where
  \<open>exampleParse row =
     ''"'' @ repo row @ ''","'' @ branch row @ ''",''
       @ (if enabled row then ''true'' else ''false'') @ '',"'' @ admins row @ ''"''\<close>

text \<open>5 January 2024, 09:03:07.\<close>

definition exampleDate :: date where
  "exampleDate = \<lparr>getFullYear = 2024, getMonth = 0, getDate = 5,
                   getHours = 9, getMinutes = 3, getSeconds = 7\<rparr>"

text \<open>The same API when every collaborator lookup is answered 403.\<close>

definition rateLimitedApi :: remote where
  "rateLimitedApi = exampleApi\<lparr>collaboratorsReply := (\<lambda>k u. Reject (Status 403))\<rparr>"

text \<open>The same API when the protection lookup of \<open>docs\<close> is answered 500.\<close>

definition brokenApi :: remote where
  "brokenApi =
     exampleApi\<lparr>protectionReply := (\<lambda>k u.
        if u = ''https://api.github.com/repos/acme/app/branches/main/protection''
        then protectionReply exampleApi k u
        else Reject (Status 500))\<rparr>"

section \<open>Auxiliary constants\<close>

text \<open>The keys of \<open>parsedProtection\<close>, in the order of the object literal.\<close>

definition protectionKeys :: "string list" where
  "protectionKeys =
     [''required_pull_request_reviews'', ''required_pull_request_reviews_count'',
      ''required_pull_request_reviews_code_owners'', ''required_signatures'',
      ''enforce_admins'', ''restrictions'', ''required_linear_history'',
      ''allow_force_pushes'', ''allow_deletions'', ''block_creations'',
      ''required_conversation_resolution'', ''lock_branch'', ''allow_fork_syncing'']"

text \<open>The world before a run: nothing requested, no file written.\<close>

definition emptyWorld :: world where
  "emptyWorld = \<lparr>trace = [], files = (\<lambda>f. None)\<rparr>"

section \<open>Properties of removeUrlsFromObject\<close>

lemma isObject_stripTree: "isObject (stripTree v)"
  by (cases v) simp_all

lemma stripSlots_append: "stripSlots (xs @ ys) = stripSlots xs @ stripSlots ys"
proof (induction xs)
  case Nil
  show ?case by simp
next
  case (Cons x xs)
  then show ?case by (cases x) simp_all
qed

lemma length_stripSlots: "length (stripSlots xs) = length xs"
proof (induction xs)
  case Nil
  show ?case by simp
next
  case (Cons x xs)
  then show ?case by (cases x) simp_all
qed

lemma dropTrailingHoles_split: "\<exists>n. xs = dropTrailingHoles xs @ replicate n None"
proof -
  let ?P = "\<lambda>x::'a option. x = None"
  have "rev xs = takeWhile ?P (rev xs) @ dropWhile ?P (rev xs)" by simp
  then have "xs = rev (dropWhile ?P (rev xs)) @ rev (takeWhile ?P (rev xs))"
    by (metis rev_append rev_rev_ident)
  moreover have "\<forall>x \<in> set (rev (takeWhile ?P (rev xs))). x = None"
    by (auto dest: set_takeWhileD)
  then have "replicate (length (rev (takeWhile ?P (rev xs)))) None = rev (takeWhile ?P (rev xs))"
    by (rule replicate_length_same)
  ultimately show ?thesis unfolding dropTrailingHoles_def by metis
qed

lemma dropTrailingHoles_idem: "dropTrailingHoles (dropTrailingHoles xs) = dropTrailingHoles xs"
  by (simp add: dropTrailingHoles_def)

lemma stripSlots_dropTrailingHoles:
  assumes "stripSlots ys = ys"
  shows "stripSlots (dropTrailingHoles ys) = dropTrailingHoles ys"
proof -
  obtain n where n: "ys = dropTrailingHoles ys @ replicate n None"
    using dropTrailingHoles_split by blast
  have "stripSlots (dropTrailingHoles ys) @ stripSlots (replicate n None) = stripSlots ys"
    using n stripSlots_append by metis
  also have "\<dots> = dropTrailingHoles ys @ replicate n None" using assms n by simp
  finally show ?thesis by (simp add: length_stripSlots)
qed

lemma not_startsWith_char: "\<not> startsWith [c] ''http''"
  by (simp add: startsWith_def)

lemma stripFields_charProps: "stripFields (charProps i s) = charProps i s"
  by (induction s arbitrary: i) (simp_all add: not_startsWith_char)

lemma stripTree_idem_all:
  "stripTree (stripTree v) = stripTree v"
  "stripFields (stripFields kvs) = stripFields kvs"
  "stripSlots (stripSlots xs) = stripSlots xs"
proof (induction v and kvs and xs rule: stripTree_stripFields_stripSlots.induct)
  case (2 xs)
  then show ?case
    by (simp add: stripSlots_dropTrailingHoles dropTrailingHoles_idem)
next
  case (3 s)
  show ?case by (simp add: stripFields_charProps)
qed (simp_all add: isObject_stripTree)

lemma valueAt_scalar: "\<not> isObject v \<Longrightarrow> p \<noteq> [] \<Longrightarrow> valueAt v p = None"
  by (cases v; cases p) simp_all

lemma valueAt_Cons:
  "valueAt v (st # p) = Some r \<Longrightarrow> \<exists>c. valueAt v [st] = Some c \<and> valueAt c p = Some r"
  by (cases v; cases st) (auto split: option.splits if_splits)

lemma valueAt_Cons_eq:
  "valueAt v [st] = Some c \<Longrightarrow> valueAt v (st # p) = valueAt c p"
  by (cases v; cases st) (auto split: option.splits if_splits)

lemma nth_dropTrailingHoles:
  assumes "i < length ys" and "ys ! i = Some y"
  shows "i < length (dropTrailingHoles ys) \<and> dropTrailingHoles ys ! i = Some y"
proof -
  obtain n where n: "ys = dropTrailingHoles ys @ replicate n None"
    using dropTrailingHoles_split by blast
  have lt: "i < length (dropTrailingHoles ys)"
  proof (rule ccontr)
    assume "\<not> i < length (dropTrailingHoles ys)"
    then have "(dropTrailingHoles ys @ replicate n None) ! i = None"
      using assms(1) n
      by (metis length_append length_replicate not_less nth_append nth_replicate add_diff_inverse_nat nat_add_left_cancel_less)
    then show False using assms(2) n by simp
  qed
  then have "ys ! i = dropTrailingHoles ys ! i"
    using n by (metis nth_append)
  then show ?thesis using lt assms(2) by simp
qed

lemma set_dropTrailingHoles: "set (dropTrailingHoles ys) \<subseteq> set ys"
  unfolding dropTrailingHoles_def by (auto dest: set_dropWhileD)

lemma map_of_stripFields_object:
  "map_of kvs k = Some v \<Longrightarrow> isObject v \<Longrightarrow> map_of (stripFields kvs) k = Some (stripTree v)"
  by (induction kvs) (auto split: if_splits)

lemma map_of_stripFields_scalar:
  "map_of kvs k = Some v \<Longrightarrow> \<not> isObject v \<Longrightarrow> \<not> isUrl v \<Longrightarrow> map_of (stripFields kvs) k = Some v"
  by (induction kvs) (auto split: if_splits)

lemma nth_stripSlots_object:
  "i < length xs \<Longrightarrow> xs ! i = Some v \<Longrightarrow> isObject v \<Longrightarrow> stripSlots xs ! i = Some (stripTree v)"
proof (induction xs arbitrary: i)
  case Nil
  then show ?case by simp
next
  case (Cons x xs)
  then show ?case by (cases x; cases i) auto
qed

lemma nth_stripSlots_scalar:
  "i < length xs \<Longrightarrow> xs ! i = Some v \<Longrightarrow> \<not> isObject v \<Longrightarrow> \<not> isUrl v \<Longrightarrow> stripSlots xs ! i = Some v"
proof (induction xs arbitrary: i)
  case Nil
  then show ?case by simp
next
  case (Cons x xs)
  then show ?case by (cases x; cases i) auto
qed

lemma child_object_kept:
  assumes "valueAt v [st] = Some c" and "isObject c"
  shows "valueAt (stripTree v) [st] = Some (stripTree c)"
proof (cases v)
  case (JObj kvs)
  then show ?thesis using assms
    by (cases st) (auto split: option.splits dest: map_of_stripFields_object)
next
  case (JArr xs)
  show ?thesis
  proof (cases st)
    case (Key k)
    then show ?thesis using assms JArr by simp
  next
    case (Index i)
    then have i: "i < length xs" "xs ! i = Some c"
      using assms JArr by (auto split: if_splits option.splits)
    then have "i < length (stripSlots xs)" "stripSlots xs ! i = Some (stripTree c)"
      using assms(2) by (simp_all add: length_stripSlots nth_stripSlots_object)
    then show ?thesis using JArr Index nth_dropTrailingHoles by fastforce
  qed
next
  case (JInh kvs q)
  then show ?thesis using assms
    by (cases st) (auto split: option.splits dest: map_of_stripFields_object)
qed (use assms in \<open>cases st; simp\<close>)+

lemma child_scalar_kept:
  assumes "valueAt v [st] = Some c" and "\<not> isObject c" and "\<not> isUrl c"
  shows "valueAt (stripTree v) [st] = Some c"
proof (cases v)
  case (JObj kvs)
  then show ?thesis using assms
    by (cases st) (auto split: option.splits dest: map_of_stripFields_scalar)
next
  case (JArr xs)
  show ?thesis
  proof (cases st)
    case (Key k)
    then show ?thesis using assms JArr by simp
  next
    case (Index i)
    then have i: "i < length xs" "xs ! i = Some c"
      using assms JArr by (auto split: if_splits option.splits)
    then have "i < length (stripSlots xs)" "stripSlots xs ! i = Some c"
      using assms(2,3) by (simp_all add: length_stripSlots nth_stripSlots_scalar)
    then show ?thesis using JArr Index nth_dropTrailingHoles by fastforce
  qed
next
  case (JInh kvs q)
  then show ?thesis using assms
    by (cases st) (auto split: option.splits dest: map_of_stripFields_scalar)
qed (use assms in \<open>cases st; simp\<close>)+

lemma string_survives:
  "p \<noteq> [] \<Longrightarrow> valueAt v p = Some (JStr s) \<Longrightarrow> \<not> startsWith s ''http'' \<Longrightarrow>
   valueAt (stripTree v) p = Some (JStr s)"
proof (induction p arbitrary: v)
  case Nil
  then show ?case by simp
next
  case (Cons st p)
  from Cons.prems(2) obtain c where c: "valueAt v [st] = Some c" "valueAt c p = Some (JStr s)"
    using valueAt_Cons by blast
  show ?case
  proof (cases "p = []")
    case True
    then have "c = JStr s" using c(2) by simp
    then have "valueAt (stripTree v) [st] = Some (JStr s)"
      using child_scalar_kept [OF c(1)] Cons.prems(3) by simp
    then show ?thesis using True by simp
  next
    case False
    then have obj: "isObject c" using c(2) valueAt_scalar by fastforce
    have "valueAt (stripTree c) p = Some (JStr s)"
      using Cons.IH [OF False c(2) Cons.prems(3)] .
    then show ?thesis
      using valueAt_Cons_eq [OF child_object_kept [OF c(1) obj]] by simp
  qed
qed

lemma map_of_stripFields_cases:
  "map_of (stripFields kvs) k = Some c \<Longrightarrow>
   (\<exists>v. isObject v \<and> c = stripTree v) \<or> (\<not> isObject c \<and> \<not> isUrl c)"
  by (induction kvs) (auto split: if_splits)

lemma set_stripSlots_cases:
  "Some c \<in> set (stripSlots xs) \<Longrightarrow>
   (\<exists>v. isObject v \<and> c = stripTree v) \<or> (\<not> isObject c \<and> \<not> isUrl c)"
proof (induction xs)
  case Nil
  then show ?case by simp
next
  case (Cons x xs)
  then show ?case by (cases x) (auto split: if_splits)
qed

lemma map_of_charProps: "map_of (charProps i s) k = Some c \<Longrightarrow> \<not> isObject c \<and> \<not> isUrl c"
  by (induction s arbitrary: i) (auto split: if_splits simp: not_startsWith_char)

lemma child_of_stripTree:
  assumes "valueAt (stripTree v) [st] = Some c"
  shows "(\<exists>v0. isObject v0 \<and> c = stripTree v0) \<or> (\<not> isObject c \<and> \<not> isUrl c)"
proof (cases v)
  case (JObj kvs)
  then show ?thesis using assms
    by (cases st) (auto split: option.splits dest: map_of_stripFields_cases)
next
  case (JArr xs)
  show ?thesis
  proof (cases st)
    case (Key k)
    then show ?thesis using assms JArr by simp
  next
    case (Index i)
    then have "Some c \<in> set (dropTrailingHoles (stripSlots xs))"
      using assms JArr by (auto split: if_splits option.splits simp: in_set_conv_nth)
    then have "Some c \<in> set (stripSlots xs)" using set_dropTrailingHoles by blast
    then show ?thesis by (rule set_stripSlots_cases)
  qed
next
  case (JStr s0)
  then show ?thesis using assms
    by (cases st) (auto split: option.splits dest: map_of_charProps)
next
  case (JInh kvs q)
  then show ?thesis using assms
    by (cases st) (auto split: option.splits dest: map_of_stripFields_cases)
qed (use assms in \<open>cases st; simp\<close>)+

lemma no_url_left:
  "p \<noteq> [] \<Longrightarrow> valueAt (stripTree v) p = Some (JStr s) \<Longrightarrow> \<not> startsWith s ''http''"
proof (induction p arbitrary: v)
  case Nil
  then show ?case by simp
next
  case (Cons st p)
  from Cons.prems(2) obtain c where
    c: "valueAt (stripTree v) [st] = Some c" "valueAt c p = Some (JStr s)"
    using valueAt_Cons by blast
  from child_of_stripTree [OF c(1)] show ?case
  proof
    assume "\<exists>v0. isObject v0 \<and> c = stripTree v0"
    then obtain v0 where v0: "c = stripTree v0" by blast
    have "p \<noteq> []"
    proof
      assume "p = []"
      then have "stripTree v0 = JStr s" using c(2) v0 by simp
      then show False using isObject_stripTree [of v0] by simp
    qed
    then show ?thesis using Cons.IH c(2) v0 by blast
  next
    assume sc: "\<not> isObject c \<and> \<not> isUrl c"
    then have "p = []" using c(2) valueAt_scalar by fastforce
    then have "c = JStr s" using c(2) by simp
    then show ?thesis using sc by simp
  qed
qed

lemma goodKeys_drop: "goodKeys (a @ k # b) \<Longrightarrow> goodKeys (a @ b)"
  by (auto simp: goodKeys_def sorted_wrt_append)

lemma goodKeys_key:
  assumes "goodKeys (a @ k # b)"
  shows "k \<noteq> ''__proto__''" and "k \<notin> set a" and "\<forall>k' \<in> set a. \<not> comesBefore k k'"
  using assms by (auto simp: goodKeys_def sorted_wrt_append)

lemma ownSet_append:
  "k \<notin> set (map fst kvs) \<Longrightarrow> \<forall>k' \<in> set (map fst kvs). \<not> comesBefore k k' \<Longrightarrow>
   ownSet kvs k x = kvs @ [(k, x)]"
  by (induction kvs) auto

lemma assignAll_goodKeys:
  "goodKeys (map fst acc @ map fst es) \<Longrightarrow> assignAll (JObj acc) es = JObj (acc @ assigned es)"
proof (induction es arbitrary: acc)
  case Nil
  show ?case by simp
next
  case (Cons e es)
  obtain k y where e: "e = (k, y)" by (cases e)
  have g: "goodKeys (map fst acc @ k # map fst es)" using Cons.prems e by simp
  show ?case
  proof (cases y)
    case None
    have "goodKeys (map fst acc @ map fst es)" using g by (rule goodKeys_drop)
    then show ?thesis using Cons.IH e None by simp
  next
    case (Some x)
    have "assign (JObj acc) k x = JObj (ownSet acc k x)"
      using goodKeys_key(1) [OF g] by (simp add: assign_def)
    also have "ownSet acc k x = acc @ [(k, x)]"
      using goodKeys_key(2,3) [OF g] by (intro ownSet_append) simp_all
    finally have a: "assign (JObj acc) k x = JObj (acc @ [(k, x)])" .
    have "goodKeys (map fst (acc @ [(k, x)]) @ map fst es)" using g by simp
    then have "assignAll (JObj (acc @ [(k, x)])) es = JObj ((acc @ [(k, x)]) @ assigned es)"
      by (rule Cons.IH)
    then show ?thesis using e Some a by simp
  qed
qed

lemma keys_forInProps: "map fst (forInProps kvs) = map fst kvs"
  by (induction kvs) auto

lemma assignAll_forInProps:
  "goodKeys (map fst kvs) \<Longrightarrow>
   assignAll (JObj []) (forInProps kvs) = JObj (assigned (forInProps kvs))"
  using assignAll_goodKeys [of "[]" "forInProps kvs"] by (simp add: keys_forInProps)

lemma removeUrls_goodKeys:
  "goodKeys (map fst kvs) \<Longrightarrow> removeUrlsFromObject (JObj kvs) = JObj (assigned (forInProps kvs))"
  by (simp add: assignAll_forInProps)

lemma removeUrls_plainTree_all:
  "plainTree v \<Longrightarrow> isObject v \<Longrightarrow> removeUrlsFromObject v = stripTree v"
  "plainFields kvs \<Longrightarrow> assigned (forInProps kvs) = stripFields kvs"
  "plainSlots xs \<Longrightarrow> copyElems xs = stripSlots xs"
proof (induction v and kvs and xs rule: plainTree_plainFields_plainSlots.induct)
  case (1 kvs)
  then show ?case by (simp add: assignAll_forInProps)
qed auto

lemmas removeUrls_plainTree = removeUrls_plainTree_all(1)

lemma goodKeys_stripFields:
  "goodKeys (a @ map fst kvs) \<Longrightarrow> goodKeys (a @ map fst (stripFields kvs))"
proof (induction kvs arbitrary: a)
  case Nil
  then show ?case by simp
next
  case (Cons kv kvs)
  obtain k v where kv: "kv = (k, v)" by (cases kv)
  have g: "goodKeys (a @ k # map fst kvs)" using Cons.prems kv by simp
  show ?case
  proof (cases "isObject v \<or> \<not> isUrl v")
    case True
    have "goodKeys ((a @ [k]) @ map fst (stripFields kvs))"
      using g by (intro Cons.IH) simp
    then show ?thesis using kv True by auto
  next
    case False
    have "goodKeys (a @ map fst (stripFields kvs))"
      using goodKeys_drop [OF g] by (rule Cons.IH)
    then show ?thesis using kv False by auto
  qed
qed

lemma plainSlots_iff: "plainSlots xs \<longleftrightarrow> (\<forall>v. Some v \<in> set xs \<longrightarrow> plainTree v)"
proof (induction xs)
  case Nil
  show ?case by simp
next
  case (Cons x xs)
  then show ?case by (cases x) auto
qed

lemma plainTree_scalar: "\<not> isObject v \<Longrightarrow> plainTree v"
  by (cases v) simp_all

lemma plainTree_stripTree_all:
  "plainTree v \<Longrightarrow> isObject v \<Longrightarrow> plainTree (stripTree v)"
  "plainFields kvs \<Longrightarrow> plainFields (stripFields kvs)"
  "plainSlots xs \<Longrightarrow> plainSlots (stripSlots xs)"
proof (induction v and kvs and xs rule: plainTree_plainFields_plainSlots.induct)
  case (1 kvs)
  then show ?case using goodKeys_stripFields [of "[]" kvs] by simp
next
  case (2 xs)
  then have "plainSlots (stripSlots xs)" by simp
  then show ?case using set_dropTrailingHoles [of "stripSlots xs"]
    by (auto simp: plainSlots_iff)
qed (auto simp: plainTree_scalar)

text \<open>
  Claim C6 does not hold of every tree: an own key named \<open>__proto__\<close>, which \<open>JSON.parse\<close>
  creates like any other, is assigned through the setter of \<open>Object.prototype\<close>. A string
  under it that does not start with \<open>http\<close> is lost; an object under it becomes the
  prototype of the result, and the next pass copies its keys, so the second result differs
  from the first.
\<close>

theorem removeUrlsFromObject_proto_counterexample:
  "valueAt (JObj [(''__proto__'', JStr ''abc'')]) [Key ''__proto__''] = Some (JStr ''abc'') \<and>
   \<not> startsWith ''abc'' ''http'' \<and>
   removeUrlsFromObject (JObj [(''__proto__'', JStr ''abc'')]) = JObj [] \<and>
   valueAt (removeUrlsFromObject (JObj [(''__proto__'', JStr ''abc'')])) [Key ''__proto__'']
     = None \<and>
   removeUrlsFromObject (JObj [(''__proto__'', JObj [(''a'', JNum 1)])])
     = JInh [] (Some (JObj [(''a'', JNum 1)])) \<and>
   removeUrlsFromObject (removeUrlsFromObject (JObj [(''__proto__'', JObj [(''a'', JNum 1)])]))
     = JObj [(''a'', JNum 1)]"
  by (simp add: startsWith_def assign_def comesBefore_def isArrayIndex_def isDigit_def)

text \<open>
  Claim C6, amended. On every tree of nested objects and arrays in which no object has a
  key named \<open>__proto__\<close>: removeUrlsFromObject is idempotent; below the root, every string
  that does not start with \<open>http\<close> is found unchanged at the same path of the result (array
  indices do not shift, since a removed element leaves a hole); and no path of the result
  leads to a string that starts with \<open>http\<close>, at any depth.
\<close>

theorem removeUrlsFromObject_strips_plain_tree:
  assumes "plainTree v" and "isObject v"
  shows "removeUrlsFromObject (removeUrlsFromObject v) = removeUrlsFromObject v \<and>
   (\<forall>p s. p \<noteq> [] \<and> valueAt v p = Some (JStr s) \<and> \<not> startsWith s ''http''
      \<longrightarrow> valueAt (removeUrlsFromObject v) p = Some (JStr s)) \<and>
   (\<forall>p s. p \<noteq> [] \<and> valueAt (removeUrlsFromObject v) p = Some (JStr s)
      \<longrightarrow> \<not> startsWith s ''http'')"
proof -
  have eq: "removeUrlsFromObject v = stripTree v"
    using assms by (rule removeUrls_plainTree)
  have "plainTree (stripTree v)" using assms by (rule plainTree_stripTree_all(1))
  then have "removeUrlsFromObject (stripTree v) = stripTree (stripTree v)"
    using isObject_stripTree by (rule removeUrls_plainTree)
  then have idem: "removeUrlsFromObject (removeUrlsFromObject v) = removeUrlsFromObject v"
    using eq by (simp add: stripTree_idem_all(1))
  show ?thesis
    unfolding idem unfolding eq
    using string_survives no_url_left by blast
qed

theorem removeUrlsFromObject_strips_plain_tree_witness:
  "plainTree (JObj [(''url'', JStr ''https://api.github.com/x''),
                    (''contexts'', JArr [Some (JStr ''http://ci''), Some (JStr ''build'')])]) \<and>
   isObject (JObj [(''url'', JStr ''https://api.github.com/x''),
                   (''contexts'', JArr [Some (JStr ''http://ci''), Some (JStr ''build'')])]) \<and>
   removeUrlsFromObject
     (JObj [(''url'', JStr ''https://api.github.com/x''),
            (''contexts'', JArr [Some (JStr ''http://ci''), Some (JStr ''build'')])])
   = JObj [(''contexts'', JArr [None, Some (JStr ''build'')])] \<and>
   removeUrlsFromObject (JObj [(''contexts'', JArr [None, Some (JStr ''build'')])])
   = JObj [(''contexts'', JArr [None, Some (JStr ''build'')])] \<and>
   [Key ''contexts'', Index 1] \<noteq> [] \<and>
   valueAt (JObj [(''url'', JStr ''https://api.github.com/x''),
                  (''contexts'', JArr [Some (JStr ''http://ci''), Some (JStr ''build'')])])
     [Key ''contexts'', Index 1] = Some (JStr ''build'') \<and>
   \<not> startsWith ''build'' ''http'' \<and>
   valueAt (removeUrlsFromObject
      (JObj [(''url'', JStr ''https://api.github.com/x''),
             (''contexts'', JArr [Some (JStr ''http://ci''), Some (JStr ''build'')])]))
     [Key ''contexts'', Index 1] = Some (JStr ''build'')"
proof -
  have p: "plainTree (JObj [(''url'', JStr ''https://api.github.com/x''),
                    (''contexts'', JArr [Some (JStr ''http://ci''), Some (JStr ''build'')])])"
    by (simp add: goodKeys_def comesBefore_def isArrayIndex_def isDigit_def)
  have o: "isObject (JObj [(''url'', JStr ''https://api.github.com/x''),
                    (''contexts'', JArr [Some (JStr ''http://ci''), Some (JStr ''build'')])])"
    by simp
  show ?thesis
    using p o removeUrlsFromObject_strips_plain_tree [OF p o]
    by (simp add: startsWith_def dropTrailingHoles_def assign_def comesBefore_def
        isArrayIndex_def isDigit_def)
qed

section \<open>The transport\<close>

lemma responseInterceptor_delivers: "snd (responseInterceptor now r) = r"
  by (simp add: responseInterceptor_def Let_def split: option.splits)

lemma urlsOf_append: "urlsOf (es @ es') = urlsOf es @ urlsOf es'"
  by (induction es rule: urlsOf.induct) simp_all

lemma requested_sleep: "requested (sleep ms w) = requested w"
  by (simp add: requested_def sleep_def urlsOf_append)

lemma files_sleep: "files (sleep ms w) = files w"
  by (simp add: sleep_def)

lemma axiosInstance_get_Reject:
  "srv (length (requested w)) url = Reject e \<Longrightarrow>
   axiosInstance_get srv clk url w = (Reject e, w\<lparr>trace := trace w @ [Get url]\<rparr>)"
  by (simp add: axiosInstance_get_def Let_def)

lemma axiosInstance_get_Resolve:
  assumes "srv (length (requested w)) url = Resolve r"
  shows "\<exists>w1. axiosInstance_get srv clk url w = (Resolve r, w1) \<and>
              requested w1 = requested w @ [url] \<and> files w1 = files w"
proof (cases "responseInterceptor (clk (length (requested w))) r")
  case (Pair t r')
  then have "r' = r" using responseInterceptor_delivers [of "clk (length (requested w))" r] by simp
  then show ?thesis using assms Pair
    by (cases t)
      (simp_all add: axiosInstance_get_def Let_def requested_def urlsOf_append)
qed

lemma axiosInstance_get_world:
  "axiosInstance_get srv clk url w = (out, w1) \<Longrightarrow>
   requested w1 = requested w @ [url] \<and> files w1 = files w"
proof (cases "srv (length (requested w)) url")
  case (Resolve r)
  then show "axiosInstance_get srv clk url w = (out, w1) \<Longrightarrow> ?thesis"
    using axiosInstance_get_Resolve [of srv w url r clk] by auto
next
  case (Reject e)
  then show "axiosInstance_get srv clk url w = (out, w1) \<Longrightarrow> ?thesis"
    using axiosInstance_get_Reject [of srv w url e clk]
    by (auto simp: requested_def urlsOf_append)
qed

lemma axiosInstance_get_outcome:
  "axiosInstance_get srv clk url w = (out, w1) \<Longrightarrow> out = srv (length (requested w)) url"
proof (cases "srv (length (requested w)) url")
  case (Resolve r)
  then show "axiosInstance_get srv clk url w = (out, w1) \<Longrightarrow> ?thesis"
    using axiosInstance_get_Resolve [of srv w url r clk] by auto
next
  case (Reject e)
  then show "axiosInstance_get srv clk url w = (out, w1) \<Longrightarrow> ?thesis"
    using axiosInstance_get_Reject [of srv w url e clk] by auto
qed

text \<open>
  Claim C8. A resolved response passes the interceptor before the caller gets it. When its
  quota-remaining header reads exactly \<open>0\<close> and the reset header reads the epoch second
  \<open>reset\<close>, the interceptor sets a timer of \<open>(reset - now div 1000) * 1000\<close> milliseconds
  (\<open>now\<close> the clock in milliseconds) and then delivers the response it was given: the
  request is followed by that timer before \<open>axiosInstance.get\<close> returns the same response.
  For any other quota-remaining header, or none, it sets no timer and \<open>axiosInstance.get\<close>
  returns the response at once, unchanged.
\<close>

theorem responseInterceptor_delay:
  "(headers r ''x-ratelimit-remaining'' = Some ''0'' \<and>
      toNumber (headers r ''x-ratelimit-reset'') = Num reset
      \<longrightarrow> responseInterceptor now r = (Some (Num ((reset - now div 1000) * 1000)), r)) \<and>
   (headers r ''x-ratelimit-remaining'' \<noteq> Some ''0''
      \<longrightarrow> responseInterceptor now r = (None, r)) \<and>
   (srv (length (requested w)) url = Resolve r \<and>
      headers r ''x-ratelimit-remaining'' = Some ''0'' \<and>
      toNumber (headers r ''x-ratelimit-reset'') = Num reset
      \<longrightarrow> axiosInstance_get srv clk url w =
            (Resolve r,
             w\<lparr>trace := trace w @
                [Get url,
                 SetTimeout (Num ((reset - clk (length (requested w)) div 1000) * 1000))]\<rparr>)) \<and>
   (srv (length (requested w)) url = Resolve r \<and>
      headers r ''x-ratelimit-remaining'' \<noteq> Some ''0''
      \<longrightarrow> axiosInstance_get srv clk url w = (Resolve r, w\<lparr>trace := trace w @ [Get url]\<rparr>))"
  by (simp add: axiosInstance_get_def responseInterceptor_def Let_def split: option.splits)

theorem responseInterceptor_delay_witness:
  "headers \<lparr>data = JNull, headers = [''x-ratelimit-remaining'' \<mapsto> ''0'',
                                        ''x-ratelimit-reset'' \<mapsto> ''1700000005'']\<rparr>
     ''x-ratelimit-remaining'' = Some ''0'' \<and>
   toNumber (headers \<lparr>data = JNull, headers = [''x-ratelimit-remaining'' \<mapsto> ''0'',
                                        ''x-ratelimit-reset'' \<mapsto> ''1700000005'']\<rparr>
     ''x-ratelimit-reset'') = Num 1700000005 \<and>
   responseInterceptor 1700000000123
     \<lparr>data = JNull, headers = [''x-ratelimit-remaining'' \<mapsto> ''0'',
                                ''x-ratelimit-reset'' \<mapsto> ''1700000005'']\<rparr>
   = (Some (Num 5000),
      \<lparr>data = JNull, headers = [''x-ratelimit-remaining'' \<mapsto> ''0'',
                                 ''x-ratelimit-reset'' \<mapsto> ''1700000005'']\<rparr>) \<and>
   axiosInstance_get
     (\<lambda>k u. Resolve \<lparr>data = JNull, headers = [''x-ratelimit-remaining'' \<mapsto> ''0'',
                                                ''x-ratelimit-reset'' \<mapsto> ''1700000005'']\<rparr>)
     (\<lambda>k. 1700000000123) ''https://api.github.com/orgs/acme'' emptyWorld
   = (Resolve \<lparr>data = JNull, headers = [''x-ratelimit-remaining'' \<mapsto> ''0'',
                                          ''x-ratelimit-reset'' \<mapsto> ''1700000005'']\<rparr>,
      emptyWorld\<lparr>trace := [Get ''https://api.github.com/orgs/acme'',
                            SetTimeout (Num 5000)]\<rparr>) \<and>
   headers \<lparr>data = JNull, headers = [''x-ratelimit-remaining'' \<mapsto> ''4999'']\<rparr>
     ''x-ratelimit-remaining'' \<noteq> Some ''0'' \<and>
   responseInterceptor 1700000000123
     \<lparr>data = JNull, headers = [''x-ratelimit-remaining'' \<mapsto> ''4999'']\<rparr>
   = (None, \<lparr>data = JNull, headers = [''x-ratelimit-remaining'' \<mapsto> ''4999'']\<rparr>) \<and>
   axiosInstance_get
     (\<lambda>k u. Resolve \<lparr>data = JNull, headers = [''x-ratelimit-remaining'' \<mapsto> ''4999'']\<rparr>)
     (\<lambda>k. 1700000000123) ''https://api.github.com/orgs/acme'' emptyWorld
   = (Resolve \<lparr>data = JNull, headers = [''x-ratelimit-remaining'' \<mapsto> ''4999'']\<rparr>,
      emptyWorld\<lparr>trace := [Get ''https://api.github.com/orgs/acme'']\<rparr>)"
  using responseInterceptor_delay
      [of "\<lparr>data = JNull, headers = [''x-ratelimit-remaining'' \<mapsto> ''0'',
                                      ''x-ratelimit-reset'' \<mapsto> ''1700000005'']\<rparr>"
          1700000005 1700000000123
          "\<lambda>k u. Resolve \<lparr>data = JNull, headers = [''x-ratelimit-remaining'' \<mapsto> ''0'',
                                      ''x-ratelimit-reset'' \<mapsto> ''1700000005'']\<rparr>"
          emptyWorld "''https://api.github.com/orgs/acme''" "\<lambda>k. 1700000000123"]
    responseInterceptor_delay
      [of "\<lparr>data = JNull, headers = [''x-ratelimit-remaining'' \<mapsto> ''4999'']\<rparr>"
          0 1700000000123
          "\<lambda>k u. Resolve \<lparr>data = JNull, headers = [''x-ratelimit-remaining'' \<mapsto> ''4999'']\<rparr>"
          emptyWorld "''https://api.github.com/orgs/acme''" "\<lambda>k. 1700000000123"]
  by (simp add: toNumber_def isDigit_def emptyWorld_def)

section \<open>The protection lookup\<close>

text \<open>
  Claim C3. When the protection lookup is rejected with status 404,
  getBranchProtectionRules returns (it does not throw) the record whose name is the
  repository's default branch and whose protection is exactly \<open>{enabled: false}\<close>; any
  other rejection is thrown on.
\<close>

theorem getBranchProtectionRules_not_found:
  "(srv (length (requested w)) (protectionUrl org r) = Reject (Status 404)
      \<longrightarrow> getBranchProtectionRules srv clk org r w =
            (Inr \<lparr>rule_name = JStr (default_branch r),
                  protection = JObj [(''enabled'', JBool False)]\<rparr>,
             w\<lparr>trace := trace w @ [Get (protectionUrl org r)]\<rparr>)) \<and>
   (\<forall>e. srv (length (requested w)) (protectionUrl org r) = Reject e \<and> e \<noteq> Status 404
      \<longrightarrow> getBranchProtectionRules srv clk org r w =
            (Inl e, w\<lparr>trace := trace w @ [Get (protectionUrl org r)]\<rparr>))"
  by (simp add: getBranchProtectionRules_def axiosInstance_get_Reject)

theorem getBranchProtectionRules_not_found_witness:
  "getBranchProtectionRules (\<lambda>k u. Reject (Status 404)) (\<lambda>k. 0) ''acme''
     \<lparr>name = ''app'', default_branch = ''main''\<rparr> emptyWorld =
     (Inr \<lparr>rule_name = JStr ''main'', protection = JObj [(''enabled'', JBool False)]\<rparr>,
      emptyWorld\<lparr>trace := [Get ''https://api.github.com/repos/acme/app/branches/main/protection'']\<rparr>) \<and>
   Status 500 \<noteq> Status 404 \<and>
   getBranchProtectionRules (\<lambda>k u. Reject (Status 500)) (\<lambda>k. 0) ''acme''
     \<lparr>name = ''app'', default_branch = ''main''\<rparr> emptyWorld =
     (Inl (Status 500),
      emptyWorld\<lparr>trace := [Get ''https://api.github.com/repos/acme/app/branches/main/protection'']\<rparr>)"
  using getBranchProtectionRules_not_found
      [of "\<lambda>k u. Reject (Status 404)" emptyWorld "''acme''"
          "\<lparr>name = ''app'', default_branch = ''main''\<rparr>" "\<lambda>k. 0"]
    getBranchProtectionRules_not_found
      [of "\<lambda>k u. Reject (Status 500)" emptyWorld "''acme''"
          "\<lparr>name = ''app'', default_branch = ''main''\<rparr>" "\<lambda>k. 0"]
  by (simp add: protectionUrl_def emptyWorld_def)

lemma map_of_assigned_None:
  "k \<notin> fst ` set kvs \<Longrightarrow> map_of (assigned (forInProps kvs)) k = None"
  by (induction kvs) (auto split: if_splits)

lemma map_of_assigned:
  "distinct (map fst kvs) \<Longrightarrow>
   map_of (assigned (forInProps kvs)) k =
     (case map_of kvs k of
        None \<Rightarrow> None
      | Some v \<Rightarrow> if isObject v then Some (removeUrlsFromObject v)
                  else if isUrl v then None else Some v)"
proof (induction kvs)
  case Nil
  show ?case by simp
next
  case (Cons kv kvs)
  obtain k' v' where kv: "kv = (k', v')" by (cases kv)
  have "k' \<notin> fst ` set kvs" using Cons.prems kv by auto
  then have none: "map_of (assigned (forInProps kvs)) k' = None" by (rule map_of_assigned_None)
  have ih: "map_of (assigned (forInProps kvs)) k =
     (case map_of kvs k of
        None \<Rightarrow> None
      | Some v \<Rightarrow> if isObject v then Some (removeUrlsFromObject v)
                  else if isUrl v then None else Some v)"
    using Cons by simp
  show ?case using none ih kv by simp
qed

lemma getProp_removeUrls:
  assumes "goodKeys (map fst kvs)"
  shows "getProp (removeUrlsFromObject (JObj kvs)) k =
     (case map_of kvs k of
        None \<Rightarrow> JUndef
      | Some v \<Rightarrow> if isObject v then removeUrlsFromObject v
                  else if isUrl v then JUndef else v)"
proof -
  have "distinct (map fst kvs)" using assms by (simp add: goodKeys_def)
  then show ?thesis
    by (simp add: removeUrls_goodKeys [OF assms] map_of_assigned split: option.splits
        del: removeUrlsFromObject.simps)
qed

lemma parsedProtection_obj:
  "\<exists>kvs. parsedProtection d = JObj kvs \<and> map fst kvs = protectionKeys"
  by (simp add: parsedProtection_def Let_def protectionKeys_def)

lemma not_isArrayIndex_letter: "k = c # cs \<Longrightarrow> \<not> isDigit c \<Longrightarrow> \<not> isArrayIndex k"
  by (simp add: isArrayIndex_def)

lemma goodKeys_no_index:
  assumes "distinct ks" and "''__proto__'' \<notin> set ks" and "\<forall>k \<in> set ks. \<not> isArrayIndex k"
  shows "goodKeys ks"
proof -
  have "sorted_wrt (\<lambda>a b. \<not> comesBefore b a) ks"
    using assms(3) by (simp add: sorted_wrt_iff_nth_less comesBefore_def)
  then show ?thesis using assms(1,2) by (simp add: goodKeys_def)
qed

lemma goodKeys_protectionKeys: "goodKeys protectionKeys"
proof (rule goodKeys_no_index)
  show "distinct protectionKeys" by (simp add: protectionKeys_def)
  show "''__proto__'' \<notin> set protectionKeys" by (simp add: protectionKeys_def)
  show "\<forall>k \<in> set protectionKeys. \<not> isArrayIndex k"
    by (simp add: protectionKeys_def not_isArrayIndex_letter isDigit_def)
qed

lemma final_enabled_absent:
  "getProp (removeUrlsFromObject (parsedProtection d)) ''enabled'' = JUndef"
proof -
  obtain kvs where kvs: "parsedProtection d = JObj kvs" "map fst kvs = protectionKeys"
    using parsedProtection_obj by blast
  have good: "goodKeys (map fst kvs)" using kvs(2) goodKeys_protectionKeys by simp
  have "''enabled'' \<notin> set protectionKeys" by (simp add: protectionKeys_def)
  then have "''enabled'' \<notin> fst ` set kvs" using kvs(2) by (metis set_map)
  then have "map_of kvs ''enabled'' = None" by (simp add: map_of_eq_None_iff)
  then show ?thesis using getProp_removeUrls [OF good, of "''enabled''"] kvs(1) by simp
qed






lemma getBranchProtectionRules_Resolve:
  assumes "srv (length (requested w)) (protectionUrl org r) = Resolve response"
  shows "\<exists>w1. requested w1 = requested w @ [protectionUrl org r] \<and> files w1 = files w \<and>
    getBranchProtectionRules srv clk org r w =
      (if data response = JNull \<or> data response = JUndef then (Inl TypeError, w1)
       else (Inr \<lparr>rule_name = getProp (data response) ''name'',
                  protection = removeUrlsFromObject (parsedProtection (data response))\<rparr>, w1))"
proof -
  obtain w1 where w1: "axiosInstance_get srv clk (protectionUrl org r) w = (Resolve response, w1)"
      "requested w1 = requested w @ [protectionUrl org r]" "files w1 = files w"
    using axiosInstance_get_Resolve [of srv w "protectionUrl org r" response clk] assms by blast
  show ?thesis
    by (rule exI [of _ w1]) (simp add: getBranchProtectionRules_def w1)
qed

lemma getBranchProtectionRules_Reject:
  assumes "srv (length (requested w)) (protectionUrl org r) = Reject e"
  shows "getBranchProtectionRules srv clk org r w =
      (if e = Status 404
       then Inr \<lparr>rule_name = JStr (default_branch r),
                 protection = JObj [(''enabled'', JBool False)]\<rparr>
       else Inl e,
       w\<lparr>trace := trace w @ [Get (protectionUrl org r)]\<rparr>)"
  using assms by (simp add: getBranchProtectionRules_def axiosInstance_get_Reject)

lemma enabled_operand:
  assumes "getBranchProtectionRules srv clk org r w = (Inr rl, w1)"
  shows "getProp (protection rl) ''enabled'' =
     (if srv (length (requested w)) (protectionUrl org r) = Reject (Status 404)
      then JBool False else JUndef)"
proof (cases "srv (length (requested w)) (protectionUrl org r)")
  case (Resolve response)
  from getBranchProtectionRules_Resolve [of srv w org r response clk, OF Resolve] assms
  have "protection rl = removeUrlsFromObject (parsedProtection (data response))"
    by (auto split: if_splits)
  then show ?thesis using Resolve by (simp add: final_enabled_absent)
next
  case (Reject e)
  from getBranchProtectionRules_Reject [of srv w org r e clk, OF Reject] assms
  have "e = Status 404 \<and> protection rl = JObj [(''enabled'', JBool False)]"
    by (auto split: if_splits)
  then show ?thesis using Reject by simp
qed



text \<open>
  Claim C10. Whenever getBranchProtectionRules returns a rule (the cases in which a row is
  emitted), the row's \<open>enabled\<close> column is false exactly when the lookup was rejected with
  404, and true for every resolved lookup whatever its body: the record built from a
  resolved lookup has no \<open>enabled\<close> key (lemma \<open>final_enabled_absent\<close>), and
  \<open>undefined == false\<close> does not hold.
\<close>

theorem enabled_column:
  "getBranchProtectionRules srv clk org r w = (Inr rl, w1) \<Longrightarrow>
   enabled (reportRow r rl adminsColumn) =
     (srv (length (requested w)) (protectionUrl org r) \<noteq> Reject (Status 404))"
  by (simp add: reportRow_def enabled_operand [of srv clk org r w rl w1])

theorem enabled_column_witness:
  "getBranchProtectionRules (\<lambda>k u. Reject (Status 404)) (\<lambda>k. 0) ''acme''
     \<lparr>name = ''app'', default_branch = ''main''\<rparr> emptyWorld =
     (Inr \<lparr>rule_name = JStr ''main'', protection = JObj [(''enabled'', JBool False)]\<rparr>,
      emptyWorld\<lparr>trace := [Get ''https://api.github.com/repos/acme/app/branches/main/protection'']\<rparr>) \<and>
   enabled (reportRow \<lparr>name = ''app'', default_branch = ''main''\<rparr>
      \<lparr>rule_name = JStr ''main'', protection = JObj [(''enabled'', JBool False)]\<rparr> '''') = False \<and>
   getBranchProtectionRules
     (\<lambda>k u. Resolve \<lparr>data = JObj [(''enforce_admins'', JObj [(''enabled'', JBool False)])],
                       headers = (\<lambda>h. None)\<rparr>)
     (\<lambda>k. 0) ''acme'' \<lparr>name = ''app'', default_branch = ''main''\<rparr> emptyWorld =
     (Inr \<lparr>rule_name = JUndef,
           protection = removeUrlsFromObject
             (parsedProtection (JObj [(''enforce_admins'', JObj [(''enabled'', JBool False)])]))\<rparr>,
      emptyWorld\<lparr>trace := [Get ''https://api.github.com/repos/acme/app/branches/main/protection'']\<rparr>) \<and>
   enabled (reportRow \<lparr>name = ''app'', default_branch = ''main''\<rparr>
      \<lparr>rule_name = JUndef,
       protection = removeUrlsFromObject
         (parsedProtection (JObj [(''enforce_admins'', JObj [(''enabled'', JBool False)])]))\<rparr> '''')
     = True"
proof -
  have a: "getBranchProtectionRules (\<lambda>k u. Reject (Status 404)) (\<lambda>k. 0) ''acme''
     \<lparr>name = ''app'', default_branch = ''main''\<rparr> emptyWorld =
     (Inr \<lparr>rule_name = JStr ''main'', protection = JObj [(''enabled'', JBool False)]\<rparr>,
      emptyWorld\<lparr>trace := [Get ''https://api.github.com/repos/acme/app/branches/main/protection'']\<rparr>)"
    by (simp add: getBranchProtectionRules_def axiosInstance_get_def Let_def protectionUrl_def
        emptyWorld_def requested_def)
  have b: "getBranchProtectionRules
     (\<lambda>k u. Resolve \<lparr>data = JObj [(''enforce_admins'', JObj [(''enabled'', JBool False)])],
                       headers = (\<lambda>h. None)\<rparr>)
     (\<lambda>k. 0) ''acme'' \<lparr>name = ''app'', default_branch = ''main''\<rparr> emptyWorld =
     (Inr \<lparr>rule_name = JUndef,
           protection = removeUrlsFromObject
             (parsedProtection (JObj [(''enforce_admins'', JObj [(''enabled'', JBool False)])]))\<rparr>,
      emptyWorld\<lparr>trace := [Get ''https://api.github.com/repos/acme/app/branches/main/protection'']\<rparr>)"
    by (simp add: getBranchProtectionRules_def axiosInstance_get_def Let_def protectionUrl_def
        emptyWorld_def requested_def responseInterceptor_def)
  show ?thesis
    using a b enabled_column [OF a, of "''''"] enabled_column [OF b, of "''''"]
    by (simp add: emptyWorld_def requested_def)
qed

section \<open>Admin exceptions\<close>

lemma split_from_semicolon_none:
  "CHR '';'' \<notin> set p \<Longrightarrow> split_from '';'' acc p = [rev acc @ p]"
  by (induction p arbitrary: acc) (auto simp: startsWith_def)

lemma split_from_semicolon_piece:
  "CHR '';'' \<notin> set p \<Longrightarrow>
   split_from '';'' acc (p @ CHR '';'' # rest) = (rev acc @ p) # split_from '';'' [] rest"
  by (induction p arbitrary: acc) (auto simp: startsWith_def)

lemma split_from_join_admins:
  "ls \<noteq> [] \<Longrightarrow> \<forall>l \<in> set ls. CHR '';'' \<notin> set l \<Longrightarrow>
   split_from '';'' acc (join ls ''; '') = (rev acc @ hd ls) # map (\<lambda>l. CHR '' '' # l) (tl ls)"
proof (induction ls "''; ''" arbitrary: acc rule: join.induct)
  case 1
  then show ?case by simp
next
  case (2 x)
  then show ?case by (simp add: split_from_semicolon_none)
next
  case (3 x y ys)
  have "split_from '';'' acc (join (x # y # ys) ''; '')
        = split_from '';'' acc (x @ CHR '';'' # (CHR '' '' # join (y # ys) ''; ''))"
    by simp
  also have "\<dots> = (rev acc @ x) # split_from '';'' [] (CHR '' '' # join (y # ys) ''; '')"
    using "3.prems" by (simp add: split_from_semicolon_piece)
  also have "split_from '';'' [] (CHR '' '' # join (y # ys) ''; '')
        = split_from '';'' [CHR '' ''] (join (y # ys) ''; '')"
    by (simp add: startsWith_def)
  also have "\<dots> = (rev [CHR '' ''] @ hd (y # ys)) # map (\<lambda>l. CHR '' '' # l) (tl (y # ys))"
    using "3.prems" by (intro "3.hyps") simp_all
  finally show ?case by simp
qed

lemma trim_leading_space: "trim (CHR '' '' # l) = trim l"
  by (simp add: trim_def isSpace_def)

lemma trim_empty: "trim [] = []"
  by (simp add: trim_def)

lemma split_join_admins:
  assumes "\<forall>l \<in> set ls. CHR '';'' \<notin> set l \<and> trim l = l"
  shows "map (\<lambda>admin. toLowerCase (trim admin)) (split (join ls ''; '') '';'')
         = (if ls = [] then [[]] else map toLowerCase ls)"
proof (cases ls)
  case Nil
  then show ?thesis by (simp add: split_def trim_empty toLowerCase_def)
next
  case (Cons x xs)
  have "split (join ls ''; '') '';'' = x # map (\<lambda>l. CHR '' '' # l) xs"
    using split_from_join_admins [of ls "[]"] assms Cons by (simp add: split_def)
  then show ?thesis using assms Cons by (simp add: trim_leading_space comp_def)
qed

lemma adminExceptions_join:
  assumes "\<forall>l \<in> set ls. CHR '';'' \<notin> set l \<and> trim l = l"
  shows "adminExceptions owners (join ls ''; '')
         = join (filter (\<lambda>l. l \<notin> set owners) (map toLowerCase ls)) '';''"
  using split_join_admins [OF assms] by (simp add: adminExceptions_def)

text \<open>
  Claim C5. For a resolved collaborator listing whose admin logins contain no semicolon and
  no leading or trailing white space (GitHub logins are alphanumeric with hyphens), the
  \<open>admins\<close> column computed from what getRepoAdmins returns is the \<open>;\<close>-joined list of: the
  logins of the users with \<open>permissions.admin\<close>, lower-cased, without those in the
  lower-cased owner list, in the order of the listing. Owners alice, bob and admins Alice,
  Carol, Dave give \<open>carol;dave\<close>.
\<close>

theorem admin_exceptions_resolved:
  assumes "srv (length (requested w)) (collaboratorsUrl org r) = Resolve response"
    and "\<forall>u \<in> set (data response).
           permissions_admin u \<longrightarrow> CHR '';'' \<notin> set (login u) \<and> trim (login u) = login u"
  shows "\<exists>fetched w1.
     getRepoAdmins srv clk org r w = (Inr fetched, w1) \<and>
     adminExceptions (map toLowerCase owners) fetched =
       join (filter (\<lambda>l. l \<notin> set (map toLowerCase owners))
               (map toLowerCase (map login (filter permissions_admin (data response))))) '';''"
proof -
  obtain w1 where w1: "axiosInstance_get srv clk (collaboratorsUrl org r) w = (Resolve response, w1)"
    using axiosInstance_get_Resolve [of srv w "collaboratorsUrl org r" response clk] assms(1)
    by blast
  have ok: "\<forall>l \<in> set (map login (filter permissions_admin (data response))).
              CHR '';'' \<notin> set l \<and> trim l = l"
    using assms(2) by auto
  show ?thesis
    apply (rule exI [of _ "join (map login (filter permissions_admin (data response))) ''; ''"])
    apply (rule exI [of _ w1])
    apply (simp only: adminExceptions_join [OF ok])
    apply (simp add: getRepoAdmins_def w1)
    done
qed

theorem admin_exceptions_resolved_witness:
  "\<exists>fetched w1.
     getRepoAdmins
       (\<lambda>k u. Resolve \<lparr>data = [\<lparr>login = ''Alice'', permissions_admin = True\<rparr>,
                                 \<lparr>login = ''Eve'', permissions_admin = False\<rparr>,
                                 \<lparr>login = ''Carol'', permissions_admin = True\<rparr>,
                                 \<lparr>login = ''Dave'', permissions_admin = True\<rparr>],
                         headers = (\<lambda>h. None)\<rparr>)
       (\<lambda>k. 0) ''acme'' \<lparr>name = ''app'', default_branch = ''main''\<rparr> emptyWorld
       = (Inr fetched, w1) \<and>
     fetched = ''Alice; Carol; Dave'' \<and>
     adminExceptions (map toLowerCase [''alice'', ''Bob'']) fetched = ''carol;dave''"
  using admin_exceptions_resolved
    [of "\<lambda>k u. Resolve \<lparr>data = [\<lparr>login = ''Alice'', permissions_admin = True\<rparr>,
                                 \<lparr>login = ''Eve'', permissions_admin = False\<rparr>,
                                 \<lparr>login = ''Carol'', permissions_admin = True\<rparr>,
                                 \<lparr>login = ''Dave'', permissions_admin = True\<rparr>],
                         headers = (\<lambda>h. None)\<rparr>"
        emptyWorld "''acme''" "\<lparr>name = ''app'', default_branch = ''main''\<rparr>"
        "\<lparr>data = [\<lparr>login = ''Alice'', permissions_admin = True\<rparr>,
                                 \<lparr>login = ''Eve'', permissions_admin = False\<rparr>,
                                 \<lparr>login = ''Carol'', permissions_admin = True\<rparr>,
                                 \<lparr>login = ''Dave'', permissions_admin = True\<rparr>],
                         headers = (\<lambda>h. None)\<rparr>"
        "\<lambda>k. 0" "[''alice'', ''Bob'']"]
  by (auto simp: trim_def isSpace_def toLowerCase_def toLowerCaseChar_def getRepoAdmins_def
      axiosInstance_get_def Let_def responseInterceptor_def)

section \<open>The pagination walker\<close>

lemma startsWith_comma_blank:
  "startsWith (c # cs) '', '' \<longleftrightarrow> c = CHR '','' \<and> (\<exists>t. cs = CHR '' '' # t)"
  by (cases cs) (auto simp: startsWith_def)

lemma split_from_comma_end:
  "CHR '' '' \<notin> set p \<Longrightarrow> split_from '', '' acc p = [rev acc @ p]"
  by (induction p arbitrary: acc) (auto simp: startsWith_comma_blank)

lemma split_from_comma_sep:
  "CHR '' '' \<notin> set p \<Longrightarrow>
   split_from '', '' acc (p @ '', '' @ rest) = (rev acc @ p) # split_from '', '' [] rest"
proof (induction p arbitrary: acc)
  case Nil
  show ?case by (simp add: startsWith_comma_blank)
next
  case (Cons c p)
  then show ?case by (cases p) (auto simp: startsWith_comma_blank)
qed

lemma split_from_comma_blank:
  "CHR '' '' \<notin> set p \<Longrightarrow> p \<noteq> [] \<Longrightarrow> last p \<noteq> CHR '','' \<Longrightarrow>
   split_from '', '' acc (p @ CHR '' '' # rest) = split_from '', '' (CHR '' '' # rev p @ acc) rest"
proof (induction p arbitrary: acc)
  case Nil
  then show ?case by simp
next
  case (Cons c p)
  then show ?case by (cases p) (auto simp: startsWith_comma_blank)
qed

lemma linkEntry_parts:
  \<open>linkEntry e = (''<'' @ fst e @ ''>;'') @ CHR '' '' # (''rel="'' @ snd e @ ''"'')\<close>
  by (simp add: linkEntry_def)

lemma split_from_linkEntry_end:
  assumes "wfLink e"
  shows "split_from '', '' acc (linkEntry e) = [rev acc @ linkEntry e]"
proof -
  have "split_from '', '' acc (linkEntry e)
        = split_from '', '' (CHR '' '' # rev (''<'' @ fst e @ ''>;'') @ acc) (''rel=\"'' @ snd e @ ''\"'')"
    unfolding linkEntry_parts using assms
    by (intro split_from_comma_blank) (simp_all add: wfLink_def)
  also have "\<dots> = [rev (CHR '' '' # rev (''<'' @ fst e @ ''>;'') @ acc) @ (''rel=\"'' @ snd e @ ''\"'')]"
    using assms by (intro split_from_comma_end) (simp add: wfLink_def)
  finally show ?thesis by (simp add: linkEntry_def)
qed

lemma split_from_linkEntry_sep:
  assumes "wfLink e"
  shows "split_from '', '' acc (linkEntry e @ '', '' @ rest)
         = (rev acc @ linkEntry e) # split_from '', '' [] rest"
proof -
  have "split_from '', '' acc (linkEntry e @ '', '' @ rest)
        = split_from '', '' acc
            ((''<'' @ fst e @ ''>;'') @ CHR '' '' # ((''rel=\"'' @ snd e @ ''\"'') @ '', '' @ rest))"
    by (simp add: linkEntry_def)
  also have "\<dots> = split_from '', '' (CHR '' '' # rev (''<'' @ fst e @ ''>;'') @ acc)
                      ((''rel=\"'' @ snd e @ ''\"'') @ '', '' @ rest)"
    using assms by (intro split_from_comma_blank) (simp_all add: wfLink_def)
  also have "\<dots> = (rev (CHR '' '' # rev (''<'' @ fst e @ ''>;'') @ acc) @ (''rel=\"'' @ snd e @ ''\"''))
                    # split_from '', '' [] rest"
    using assms by (intro split_from_comma_sep) (simp add: wfLink_def)
  finally show ?thesis by (simp add: linkEntry_def)
qed

lemma split_from_linkHeader:
  "es \<noteq> [] \<Longrightarrow> list_all wfLink es \<Longrightarrow>
   split_from '', '' [] (linkHeader es) = map linkEntry es"
proof (induction es)
  case Nil
  then show ?case by simp
next
  case (Cons e es)
  show ?case
  proof (cases es)
    case Nil
    then show ?thesis using Cons.prems
      by (simp add: linkHeader_def split_from_linkEntry_end)
  next
    case (Cons e' es')
    then have "linkHeader (e # es) = linkEntry e @ '', '' @ linkHeader es"
      by (simp add: linkHeader_def)
    moreover have "split_from '', '' [] (linkEntry e @ '', '' @ linkHeader es)
        = (rev [] @ linkEntry e) # split_from '', '' [] (linkHeader es)"
      using Cons.prems by (intro split_from_linkEntry_sep) simp
    ultimately show ?thesis using Cons.IH Cons.prems Cons by simp
  qed
qed

lemma linkEntry_not_empty: "linkEntry e \<noteq> []"
  by (simp add: linkEntry_def)

lemma linkHeader_not_empty: "es \<noteq> [] \<Longrightarrow> linkHeader es \<noteq> []"
proof (cases es)
  case Nil
  then show "es \<noteq> [] \<Longrightarrow> ?thesis" by simp
next
  case (Cons e es')
  then show ?thesis by (cases es') (simp_all add: linkHeader_def linkEntry_def)
qed

lemma endsWith_iff: "endsWith s p \<longleftrightarrow> (\<exists>a. s = a @ p)"
proof
  assume "endsWith s p"
  then have "s = take (length s - length p) s @ p"
    unfolding endsWith_def by (metis append_take_drop_id)
  then show "\<exists>a. s = a @ p" ..
next
  assume "\<exists>a. s = a @ p"
  then show "endsWith s p" by (auto simp: endsWith_def)
qed

lemma after_last_quote:
  assumes "x @ CHR 0x22 # r = y @ CHR 0x22 # r'"
    and "CHR 0x22 \<notin> set r" and "CHR 0x22 \<notin> set r'"
  shows "r = r'"
proof -
  have "takeWhile (\<lambda>c. c \<noteq> CHR 0x22) (rev r @ CHR 0x22 # rev x) = rev r"
    using assms(2) by (auto simp: takeWhile_tail)
  moreover have "takeWhile (\<lambda>c. c \<noteq> CHR 0x22) (rev r' @ CHR 0x22 # rev y) = rev r'"
    using assms(3) by (auto simp: takeWhile_tail)
  moreover have "rev r @ CHR 0x22 # rev x = rev r' @ CHR 0x22 # rev y"
    using arg_cong [OF assms(1), of rev] by simp
  ultimately show ?thesis by (metis rev_is_rev_conv)
qed

lemma endsWith_linkEntry:
  assumes "CHR 0x22 \<notin> set (snd e)"
  shows \<open>endsWith (linkEntry e) ''rel="next"'' \<longleftrightarrow> snd e = ''next''\<close>
proof
  assume \<open>endsWith (linkEntry e) ''rel="next"''\<close>
  then obtain a where a: \<open>linkEntry e = a @ ''rel="next"''\<close>
    using endsWith_iff by blast
  have \<open>(''<'' @ fst e @ ''>; rel='') @ CHR 0x22 # snd e = (a @ ''rel='') @ CHR 0x22 # ''next''\<close>
    using a by (simp add: linkEntry_def)
  moreover note assms
  moreover have "CHR 0x22 \<notin> set ''next''" by simp
  ultimately show "snd e = ''next''"
    by (rule after_last_quote)
next
  assume "snd e = ''next''"
  then have \<open>linkEntry e = (''<'' @ fst e @ ''>; '') @ ''rel="next"''\<close>
    by (simp add: linkEntry_def)
  then show \<open>endsWith (linkEntry e) ''rel="next"''\<close>
    using endsWith_iff by blast
qed

lemma find_linkEntry:
  "list_all wfLink es \<Longrightarrow>
   find (\<lambda>l. endsWith l ''rel=\"next\"'') (map linkEntry es)
   = map_option linkEntry (find (\<lambda>e. snd e = ''next'') es)"
  by (induction es) (simp_all add: endsWith_linkEntry wfLink_def)

lemma indexOf_append:
  "c \<notin> set p \<Longrightarrow> indexOf (p @ c # rest) c = int (length p)"
  by (induction p) (auto simp: Let_def)

lemma slice_linkEntry:
  assumes "CHR ''>'' \<notin> set (fst e)"
  shows "slice (linkEntry e) (indexOf (linkEntry e) CHR ''<'' + 1) (indexOf (linkEntry e) CHR ''>'')
         = fst e"
proof -
  have lt: "indexOf (linkEntry e) CHR ''<'' = 0" by (simp add: linkEntry_def)
  have "linkEntry e = (CHR ''<'' # fst e) @ CHR ''>'' # ''; rel=\"'' @ snd e @ ''\"''"
    by (simp add: linkEntry_def)
  then have gt: "indexOf (linkEntry e) CHR ''>'' = int (length (CHR ''<'' # fst e))"
    using assms indexOf_append [of "CHR ''>''" "CHR ''<'' # fst e"] by simp
  show ?thesis unfolding lt gt
    by (simp add: slice_def Let_def linkEntry_def)
qed

lemma nextUrl_linkHeader:
  assumes "headers r ''link'' = Some (linkHeader es)" and "list_all wfLink es"
  shows "nextUrl r = map_option fst (find (\<lambda>e. snd e = ''next'') es)"
proof (cases "es = []")
  case True
  then show ?thesis using assms by (simp add: nextUrl_def linkHeader_def)
next
  case False
  then have ne: "linkHeader es \<noteq> []" by (rule linkHeader_not_empty)
  have sp: "split (linkHeader es) '', '' = map linkEntry es"
    using False assms(2) by (simp add: split_def split_from_linkHeader)
  show ?thesis
  proof (cases "find (\<lambda>e. snd e = ''next'') es")
    case None
    then show ?thesis using assms ne sp
      by (simp add: nextUrl_def find_linkEntry)
  next
    case (Some e)
    then have "e \<in> set es" by (auto simp: find_Some_iff)
    then have "CHR ''>'' \<notin> set (fst e)"
      using assms(2) by (auto simp: list_all_iff wfLink_def)
    then show ?thesis using assms ne sp Some
      by (simp add: nextUrl_def find_linkEntry linkEntry_not_empty slice_linkEntry)
  qed
qed

lemma nextUrl_no_header: "headers r ''link'' = None \<Longrightarrow> nextUrl r = None"
  by (simp add: nextUrl_def)

lemma nextUrl_page:
  assumes "headers r ''link'' = map_option linkHeader (pageLinks pg)" and "wfPage pg"
  shows "nextUrl r = nextOf pg"
proof (cases "pageLinks pg")
  case None
  then show ?thesis using assms by (simp add: nextUrl_no_header nextOf_def)
next
  case (Some es)
  then show ?thesis using assms nextUrl_linkHeader [of r es]
    by (simp add: nextOf_def wfPage_def)
qed

lemma servesPage_Resolve:
  assumes "servesPage srv k pg"
  obtains r where "srv k (pageUrl pg) = Resolve r" and "data r = pageItems pg"
    and "headers r ''link'' = map_option linkHeader (pageLinks pg)"
  using assms by (auto simp: servesPage_def split: reply.splits)

lemma getRepos_loop_step:
  assumes "u \<noteq> []" and "servesPage srv (length (requested w)) pg" and "pageUrl pg = u"
    and "wfPage pg"
  shows "\<exists>w1. requested w1 = requested w @ [u] \<and> files w1 = files w \<and>
           getRepos_loop srv clk (Some u) acc w
           = getRepos_loop srv clk (nextOf pg) (acc @ pageItems pg) w1"
proof -
  obtain r where r: "srv (length (requested w)) u = Resolve r" "data r = pageItems pg"
      "headers r ''link'' = map_option linkHeader (pageLinks pg)"
    using servesPage_Resolve [OF assms(2)] assms(3) by metis
  obtain w1 where w1: "axiosInstance_get srv clk u w = (Resolve r, w1)"
      "requested w1 = requested w @ [u]" "files w1 = files w"
    using axiosInstance_get_Resolve [of srv w u r clk] r(1) by blast
  have nx: "nextUrl r = nextOf pg" using r(3) assms(4) by (rule nextUrl_page)
  have "getRepos_loop srv clk (Some u) acc w
        = getRepos_loop srv clk (nextOf pg) (acc @ pageItems pg) w1"
    by (subst getRepos_loop.simps) (simp add: assms(1) w1(1) nx r(2))
  then show ?thesis using w1(2,3) by blast
qed

lemma getRepos_loop_pages:
  assumes "pageChain pages" and "\<forall>pg \<in> set pages. wfPage pg"
    and "pageUrl (hd pages) \<noteq> []"
    and "\<forall>i < length pages. servesPage srv (length (requested w) + i) (pages ! i)"
  shows "\<exists>w1. getRepos_loop srv clk (Some (pageUrl (hd pages))) acc w
               = Some (Inr (acc @ concat (map pageItems pages)), w1) \<and>
              requested w1 = requested w @ map pageUrl pages \<and> files w1 = files w"
  using assms
proof (induction pages arbitrary: acc w rule: pageChain.induct)
  case 1
  then show ?case by simp
next
  case (2 pg)
  have sv: "servesPage srv (length (requested w)) pg" using "2.prems"(4) by simp
  have wf: "wfPage pg" using "2.prems"(2) by simp
  obtain w1 where w1: "requested w1 = requested w @ [pageUrl pg]" "files w1 = files w"
      "getRepos_loop srv clk (Some (pageUrl pg)) acc w
       = getRepos_loop srv clk (nextOf pg) (acc @ pageItems pg) w1"
    using getRepos_loop_step [of "pageUrl pg" srv w pg clk acc] "2.prems"(3) sv wf by auto
  have "nextOf pg = None" using "2.prems"(1) by simp
  then have "getRepos_loop srv clk (Some (pageUrl pg)) acc w = Some (Inr (acc @ pageItems pg), w1)"
    using w1(3) by (simp add: getRepos_loop.simps)
  then show ?case using w1(1,2) by simp
next
  case (3 pg pg' pgs)
  have sv: "servesPage srv (length (requested w)) pg" using "3.prems"(4) by fastforce
  have wf: "wfPage pg" using "3.prems"(2) by simp
  obtain w1 where w1: "requested w1 = requested w @ [pageUrl pg]" "files w1 = files w"
      "getRepos_loop srv clk (Some (pageUrl pg)) acc w
       = getRepos_loop srv clk (nextOf pg) (acc @ pageItems pg) w1"
    using getRepos_loop_step [of "pageUrl pg" srv w pg clk acc] "3.prems"(3) sv wf by auto
  have nx: "nextOf pg = Some (pageUrl pg')" and ne: "pageUrl pg' \<noteq> []"
    and ch: "pageChain (pg' # pgs)"
    using "3.prems"(1) by simp_all
  have rest: "\<forall>i < length (pg' # pgs).
      servesPage srv (length (requested w1) + i) ((pg' # pgs) ! i)"
  proof (intro allI impI)
    fix i assume "i < length (pg' # pgs)"
    then have "servesPage srv (length (requested w) + Suc i) ((pg # pg' # pgs) ! Suc i)"
      using "3.prems"(4) by (metis Suc_less_eq length_Cons)
    then show "servesPage srv (length (requested w1) + i) ((pg' # pgs) ! i)"
      using w1(1) by simp
  qed
  obtain w2 where w2: "getRepos_loop srv clk (Some (pageUrl (hd (pg' # pgs)))) (acc @ pageItems pg) w1
               = Some (Inr ((acc @ pageItems pg) @ concat (map pageItems (pg' # pgs))), w2)"
      "requested w2 = requested w1 @ map pageUrl (pg' # pgs)" "files w2 = files w1"
    using "3.IH" [where acc = "acc @ pageItems pg" and w = w1] ch "3.prems"(2) ne rest by auto
  have "getRepos_loop srv clk (Some (pageUrl pg)) acc w
        = Some (Inr (acc @ concat (map pageItems (pg # pg' # pgs))), w2)"
    using w1(3) nx w2(1) by simp
  moreover have "requested w2 = requested w @ map pageUrl (pg # pg' # pgs)"
    using w1(1) w2(2) by simp
  moreover have "files w2 = files w" using w1(2) w2(3) by simp
  ultimately show ?case by auto
qed

text \<open>
  Claim C2. Given a sequence of pages in which every page but the last has a \<open>link\<close> header
  with an entry \<open><url>; rel="next"\<close> naming the following page (entries joined by a comma
  and a blank, URLs without blank or \<open>>\<close>), and the last page has no such entry or no
  \<open>link\<close> header, each request being answered with its page: getRepos returns, its result
  is the concatenation of the pages' items in page order, and it has requested each page's
  URL once, in order.
\<close>

theorem getRepos_concatenates_pages:
  assumes "pageChain pages" and "\<forall>pg \<in> set pages. wfPage pg"
    and "pageUrl (hd pages) = reposUrl org"
    and "\<forall>i < length pages. servesPage srv (length (requested w) + i) (pages ! i)"
  shows "\<exists>w1. getRepos srv clk org w = Some (Inr (concat (map pageItems pages)), w1) \<and>
              requested w1 = requested w @ map pageUrl pages"
proof -
  have "pageUrl (hd pages) \<noteq> []" using assms(3) by (simp add: reposUrl_def)
  then show ?thesis
    using getRepos_loop_pages [OF assms(1,2) _ assms(4), of clk "[]"] assms(3)
    by (auto simp: getRepos_def)
qed

theorem getRepos_concatenates_pages_witness:
  "pageChain examplePages \<and> wfPage (examplePages ! 0) \<and> wfPage (examplePages ! 1) \<and>
   pageUrl (hd examplePages) = reposUrl ''acme'' \<and>
   servesPage exampleListing 0 (examplePages ! 0) \<and>
   servesPage exampleListing 1 (examplePages ! 1) \<and>
   (\<exists>w1. getRepos exampleListing (\<lambda>k. 0) ''acme'' emptyWorld
           = Some (Inr [''app'', ''docs'', ''site''], w1) \<and>
         requested w1 = [''https://api.github.com/orgs/acme/repos?per_page=100'',
                         ''https://api.github.com/organizations/1/repos?per_page=100&page=2''])"
proof -
  have h1: "pageChain examplePages"
    by (simp add: examplePages_def nextOf_def)
  have h2: "\<forall>pg \<in> set examplePages. wfPage pg"
    by (simp add: examplePages_def wfPage_def wfLink_def)
  have h3: "pageUrl (hd examplePages) = reposUrl ''acme''"
    by (simp add: examplePages_def reposUrl_def)
  have h4: "\<forall>i < length examplePages.
      servesPage exampleListing (length (requested emptyWorld) + i) (examplePages ! i)"
    by (simp add: examplePages_def exampleListing_def servesPage_def linkHeader_def
        linkEntry_def emptyWorld_def requested_def less_Suc_eq)
  have h5: "wfPage (examplePages ! 0) \<and> wfPage (examplePages ! 1) \<and>
      servesPage exampleListing 0 (examplePages ! 0) \<and>
      servesPage exampleListing 1 (examplePages ! 1)"
    by (simp add: examplePages_def exampleListing_def servesPage_def linkHeader_def
        linkEntry_def wfPage_def wfLink_def)
  show ?thesis
    using h1 h3 h5 getRepos_concatenates_pages [OF h1 h2 h3 h4, of "\<lambda>k. 0"]
    by (simp add: examplePages_def emptyWorld_def requested_def)
qed

section \<open>The report loop\<close>

lemma getRepoAdmins_Resolve:
  assumes "srv (length (requested w)) (collaboratorsUrl org r) = Resolve response"
  shows "\<exists>w1. requested w1 = requested w @ [collaboratorsUrl org r] \<and> files w1 = files w \<and>
    getRepoAdmins srv clk org r w =
      (Inr (join (map login (filter permissions_admin (data response))) ''; ''), w1)"
proof -
  obtain w1 where w1: "axiosInstance_get srv clk (collaboratorsUrl org r) w = (Resolve response, w1)"
      "requested w1 = requested w @ [collaboratorsUrl org r]" "files w1 = files w"
    using axiosInstance_get_Resolve [of srv w "collaboratorsUrl org r" response clk] assms by blast
  show ?thesis
    by (rule exI [of _ w1]) (simp add: getRepoAdmins_def w1)
qed

lemma getBranchProtectionRules_returns:
  assumes "case srv (length (requested w)) (protectionUrl org r) of
             Resolve response \<Rightarrow> data response \<noteq> JNull \<and> data response \<noteq> JUndef
           | Reject e \<Rightarrow> e = Status 404"
  shows "\<exists>rl w1. getBranchProtectionRules srv clk org r w = (Inr rl, w1) \<and>
           requested w1 = requested w @ [protectionUrl org r] \<and> files w1 = files w"
proof (cases "srv (length (requested w)) (protectionUrl org r)")
  case (Resolve response)
  then show ?thesis
    using getBranchProtectionRules_Resolve [of srv w org r response clk] assms by auto
next
  case (Reject e)
  then show ?thesis
    using getBranchProtectionRules_Reject [of srv w org r e clk] assms
    by (auto simp: requested_def urlsOf_append)
qed

lemma report_iteration:
  assumes "lookupsReturn api org (length (requested w)) r"
  shows "\<exists>rl fetched w1 w2.
     getBranchProtectionRules (protectionReply api) (clock api) org r w = (Inr rl, w1) \<and>
     getRepoAdmins (collaboratorsReply api) (clock api) org r w1 = (Inr fetched, w2) \<and>
     requested w2 = requested w @ [protectionUrl org r, collaboratorsUrl org r] \<and>
     files w2 = files w"
proof -
  obtain rl w1 where w1:
      "getBranchProtectionRules (protectionReply api) (clock api) org r w = (Inr rl, w1)"
      "requested w1 = requested w @ [protectionUrl org r]" "files w1 = files w"
    using getBranchProtectionRules_returns [of "protectionReply api" w org r "clock api"] assms
    by (auto simp: lookupsReturn_def)
  obtain response where
    resp: "collaboratorsReply api (length (requested w1)) (collaboratorsUrl org r) = Resolve response"
    using assms w1(2) by (auto simp: lookupsReturn_def split: reply.splits)
  obtain w2 where w2: "requested w2 = requested w1 @ [collaboratorsUrl org r]" "files w2 = files w1"
      "getRepoAdmins (collaboratorsReply api) (clock api) org r w1 =
      (Inr (join (map login (filter permissions_admin (data response))) ''; ''), w2)"
    using getRepoAdmins_Resolve [of "collaboratorsReply api" w1 org r response "clock api"] resp
    by blast
  show ?thesis using w1 w2 by auto
qed

lemma requested_appendFileSync: "requested (appendFileSync f t w) = requested w"
  by (simp add: requested_def appendFileSync_def)

lemma files_appendFileSync:
  "files (appendFileSync f t w) =
   (files w)(f \<mapsto> (case files w f of None \<Rightarrow> [] | Some old \<Rightarrow> old) @ t)"
  by (simp add: appendFileSync_def)

text \<open>
  Claim C1, amended. When both lookups return for every repository of the list (the
  protection lookup resolved or rejected with 404, the collaborator lookup resolved, with
  any list of collaborators, also the empty one), the loop returns, and the text it has
  appended to the report file is one line for each repository, in the order of the list:
  the rows have the names and default branches of the repositories, in order, the
  \<open>enabled\<close> column of a row is false exactly when that repository's protection lookup was
  rejected with 404, and the file is its former content followed by the rows' lines.
\<close>

theorem reportRepos_one_row_each:
  assumes "\<forall>i < length repos. lookupsReturn api org (length (requested w) + 2 * i) (repos ! i)"
    and "files w fileName = Some old"
  shows "\<exists>rows w1.
     reportRepos api org orgOwners fileName parse repos w = (Inr (), w1) \<and>
     length rows = length repos \<and>
     map repo rows = map name repos \<and>
     map branch rows = map default_branch repos \<and>
     (\<forall>i < length repos.
        enabled (rows ! i) =
          (protectionReply api (length (requested w) + 2 * i) (protectionUrl org (repos ! i))
             \<noteq> Reject (Status 404))) \<and>
     files w1 fileName = Some (old @ concat (map (reportLine parse) rows)) \<and>
     requested w1 = requested w @ concat (map (\<lambda>r. [protectionUrl org r, collaboratorsUrl org r]) repos)"
  using assms
proof (induction repos arbitrary: w old)
  case Nil
  then show ?case by simp
next
  case (Cons r repos)
  have "lookupsReturn api org (length (requested w)) r" using Cons.prems(1) by fastforce
  then obtain rl fetched w1 w2 where it:
      "getBranchProtectionRules (protectionReply api) (clock api) org r w = (Inr rl, w1)"
      "getRepoAdmins (collaboratorsReply api) (clock api) org r w1 = (Inr fetched, w2)"
      "requested w2 = requested w @ [protectionUrl org r, collaboratorsUrl org r]"
      "files w2 = files w"
    using report_iteration by blast
  define row where "row = reportRow r rl (adminExceptions orgOwners fetched)"
  define w3 where "w3 = appendFileSync fileName (reportLine parse row) w2"
  have step: "reportRepos api org orgOwners fileName parse (r # repos) w
              = reportRepos api org orgOwners fileName parse repos w3"
    by (simp add: it row_def w3_def)
  have req3: "requested w3 = requested w @ [protectionUrl org r, collaboratorsUrl org r]"
    by (simp add: w3_def requested_appendFileSync it)
  have file3: "files w3 fileName = Some (old @ reportLine parse row)"
    by (simp add: w3_def files_appendFileSync it Cons.prems(2))
  have rest: "\<forall>i < length repos. lookupsReturn api org (length (requested w3) + 2 * i) (repos ! i)"
  proof (intro allI impI)
    fix i assume "i < length repos"
    then have "lookupsReturn api org (length (requested w) + 2 * Suc i) ((r # repos) ! Suc i)"
      using Cons.prems(1) by (metis Suc_less_eq length_Cons)
    then show "lookupsReturn api org (length (requested w3) + 2 * i) (repos ! i)"
      by (simp add: req3)
  qed
  obtain rows w4 where ih:
      "reportRepos api org orgOwners fileName parse repos w3 = (Inr (), w4)"
      "length rows = length repos" "map repo rows = map name repos"
      "map branch rows = map default_branch repos"
      "\<forall>i < length repos.
         enabled (rows ! i) =
           (protectionReply api (length (requested w3) + 2 * i) (protectionUrl org (repos ! i))
              \<noteq> Reject (Status 404))"
      "files w4 fileName = Some ((old @ reportLine parse row) @ concat (map (reportLine parse) rows))"
      "requested w4 = requested w3 @ concat (map (\<lambda>r. [protectionUrl org r, collaboratorsUrl org r]) repos)"
    using Cons.IH [OF rest file3] by blast
  have final: "reportRepos api org orgOwners fileName parse (r # repos) w = (Inr (), w4)"
    using step ih(1) by (simp only:)
  have names: "repo row = name r" "branch row = default_branch r"
    by (simp_all add: row_def reportRow_def)
  have en0: "enabled row =
      (protectionReply api (length (requested w)) (protectionUrl org r) \<noteq> Reject (Status 404))"
    by (simp add: row_def reportRow_def
        enabled_operand [of "protectionReply api" "clock api" org r w rl w1, OF it(1)])
  have en: "\<forall>i < length (r # repos).
      enabled ((row # rows) ! i) =
        (protectionReply api (length (requested w) + 2 * i) (protectionUrl org ((r # repos) ! i))
           \<noteq> Reject (Status 404))"
  proof (intro allI impI)
    fix i assume i: "i < length (r # repos)"
    show "enabled ((row # rows) ! i) =
        (protectionReply api (length (requested w) + 2 * i) (protectionUrl org ((r # repos) ! i))
           \<noteq> Reject (Status 404))"
    proof (cases i)
      case 0
      then show ?thesis using en0 by simp
    next
      case (Suc j)
      then have "j < length repos" using i by simp
      then have "enabled (rows ! j) =
           (protectionReply api (length (requested w3) + 2 * j) (protectionUrl org (repos ! j))
              \<noteq> Reject (Status 404))"
        using ih(5) by blast
      then show ?thesis using Suc by (simp add: req3)
    qed
  qed
  have len: "length (row # rows) = length (r # repos)" using ih(2) by simp
  have nm: "map repo (row # rows) = map name (r # repos)"
    and br: "map branch (row # rows) = map default_branch (r # repos)"
    using ih(3,4) names by simp_all
  have fl: "files w4 fileName = Some (old @ concat (map (reportLine parse) (row # rows)))"
    using ih(6) by simp
  have rq: "requested w4 = requested w
      @ concat (map (\<lambda>r. [protectionUrl org r, collaboratorsUrl org r]) (r # repos))"
    using ih(7) req3 by simp
  show ?case
    by (intro exI [of _ "row # rows"] exI [of _ w4] conjI) (rule final len nm br en fl rq)+
qed

lemma example_lookups:
  "\<forall>i < length exampleRepos.
     lookupsReturn exampleApi ''acme''
       (length (requested (writeFileSync ''report.csv'' headerText emptyWorld)) + 2 * i)
       (exampleRepos ! i)"
  by (simp add: exampleRepos_def exampleApi_def lookupsReturn_def protectionUrl_def
      collaboratorsUrl_def less_Suc_eq)

lemma example_file:
  "files (writeFileSync ''report.csv'' headerText emptyWorld) ''report.csv'' = Some headerText"
  by (simp add: writeFileSync_def)

lemma example_run:
  "\<exists>w1. reportRepos exampleApi ''acme'' [''alice''] ''report.csv'' exampleParse exampleRepos
            (writeFileSync ''report.csv'' headerText emptyWorld) = (Inr (), w1) \<and>
     files w1 ''report.csv'' =
       Some (headerText @ ''app,main,true,carol'' @ [CHR 0x0A] @ ''docs,trunk,false,'' @ [CHR 0x0A])"
  by (simp add: exampleRepos_def exampleApi_def exampleParse_def getBranchProtectionRules_def
      getRepoAdmins_def axiosInstance_get_def responseInterceptor_def Let_def
      protectionUrl_def collaboratorsUrl_def requested_def writeFileSync_def appendFileSync_def
      emptyWorld_def reportLine_def reportRow_def adminExceptions_def split_def startsWith_def
      trim_def isSpace_def toLowerCase_def toLowerCaseChar_def final_enabled_absent)

theorem reportRepos_one_row_each_witness:
  "lookupsReturn exampleApi ''acme'' 0 \<lparr>name = ''app'', default_branch = ''main''\<rparr> \<and>
   lookupsReturn exampleApi ''acme'' 2 \<lparr>name = ''docs'', default_branch = ''trunk''\<rparr> \<and>
   files (writeFileSync ''report.csv'' headerText emptyWorld) ''report.csv'' = Some headerText \<and>
   (\<exists>rows w1.
      reportRepos exampleApi ''acme'' [''alice''] ''report.csv'' exampleParse exampleRepos
        (writeFileSync ''report.csv'' headerText emptyWorld) = (Inr (), w1) \<and>
      length rows = 2 \<and> map repo rows = [''app'', ''docs''] \<and>
      enabled (rows ! 0) = True \<and> enabled (rows ! 1) = False \<and>
      files w1 ''report.csv'' = Some (headerText @ concat (map (reportLine exampleParse) rows)) \<and>
      files w1 ''report.csv'' =
        Some (headerText @ ''app,main,true,carol'' @ [CHR 0x0A] @ ''docs,trunk,false,'' @ [CHR 0x0A]))"
proof -
  obtain rows w1 where r:
      "reportRepos exampleApi ''acme'' [''alice''] ''report.csv'' exampleParse exampleRepos
        (writeFileSync ''report.csv'' headerText emptyWorld) = (Inr (), w1)"
      "length rows = length exampleRepos" "map repo rows = map name exampleRepos"
      "files w1 ''report.csv'' = Some (headerText @ concat (map (reportLine exampleParse) rows))"
      "\<forall>i < length exampleRepos.
         enabled (rows ! i) =
           (protectionReply exampleApi
              (length (requested (writeFileSync ''report.csv'' headerText emptyWorld)) + 2 * i)
              (protectionUrl ''acme'' (exampleRepos ! i)) \<noteq> Reject (Status 404))"
    using reportRepos_one_row_each [OF example_lookups example_file, of "[''alice'']" exampleParse]
    by blast
  have e0: "enabled (rows ! 0) = True" and e1: "enabled (rows ! 1) = False"
    using r(5) by (simp_all add: exampleRepos_def exampleApi_def protectionUrl_def)
  have len: "length rows = 2" and names: "map repo rows = [''app'', ''docs'']"
    using r(2,3) by (simp_all add: exampleRepos_def)
  have content: "files w1 ''report.csv'' =
        Some (headerText @ ''app,main,true,carol'' @ [CHR 0x0A] @ ''docs,trunk,false,'' @ [CHR 0x0A])"
    using example_run r(1) by auto
  have l0: "lookupsReturn exampleApi ''acme'' 0 \<lparr>name = ''app'', default_branch = ''main''\<rparr>"
    and l2: "lookupsReturn exampleApi ''acme'' 2 \<lparr>name = ''docs'', default_branch = ''trunk''\<rparr>"
    by (simp_all add: exampleApi_def lookupsReturn_def protectionUrl_def collaboratorsUrl_def)
  show ?thesis
    by (intro conjI exI [of _ rows] exI [of _ w1])
      (rule l0 l2 example_file r(1) len names e0 e1 r(4) content)+
qed

lemma example_main:
  "\<exists>w1. main \<lparr>githubToken = ''secret'', orgName = ''acme''\<rparr> exampleApi exampleDate exampleParse
            emptyWorld = Some (Returned, w1) \<and>
     requested w1 =
       [''https://api.github.com/orgs/acme'',
        ''https://api.github.com/orgs/acme/members?role=admin'',
        ''https://api.github.com/orgs/acme/repos?per_page=100'',
        ''https://api.github.com/repos/acme/app/branches/main/protection'',
        ''https://api.github.com/repos/acme/app/collaborators?permission=admin'',
        ''https://api.github.com/repos/acme/docs/branches/trunk/protection'',
        ''https://api.github.com/repos/acme/docs/collaborators?permission=admin''] \<and>
     files w1 ''acme-2024-1-5_9:3:7-branch-protection-report.csv'' =
       Some (headerText @ ''app,main,true,carol'' @ [CHR 0x0A] @ ''docs,trunk,false,'' @ [CHR 0x0A])"
  by (simp add: main_def validateOrg.simps getRepos_def getRepos_loop.simps nextUrl_def
      getOrgOwners_def orgUrl_def membersUrl_def reposUrl_def reportFileName_def exampleDate_def
      decimal.simps
      exampleRepos_def exampleApi_def exampleParse_def getBranchProtectionRules_def
      getRepoAdmins_def axiosInstance_get_def responseInterceptor_def Let_def
      protectionUrl_def collaboratorsUrl_def requested_def writeFileSync_def appendFileSync_def
      emptyWorld_def reportLine_def reportRow_def adminExceptions_def split_def startsWith_def
      trim_def isSpace_def toLowerCase_def toLowerCaseChar_def final_enabled_absent)

text \<open>
  Whatever the lookups answer, the run only appends to the report: when the loop ends, by
  returning or by a thrown error, the file holds its former content followed by the lines
  of the first repositories of the list, in order, and of all of them when it returns.
\<close>

lemma getRepos_loop_files:
  assumes "getRepos_loop srv clk url acc w = Some (res, w1)"
  shows "files w1 = files w"
proof -
  have "files (snd y) = files w" if "getRepos_loop srv clk url acc w = Some y" for y
    using that
  proof (rule getRepos_loop.raw_induct [rotated 1], goal_cases)
    case (1 f srv clk url repos w y)
    show ?case
    proof (cases url)
      case None
      then show ?thesis using "1"(2) by auto
    next
      case (Some u)
      show ?thesis
      proof (cases "u = []")
        case True
        then show ?thesis using "1"(2) Some by auto
      next
        case False
        obtain out w2 where g: "axiosInstance_get srv clk u w = (out, w2)"
          by (cases "axiosInstance_get srv clk u w")
        then have fw: "files w2 = files w" using axiosInstance_get_world by blast
        show ?thesis
        proof (cases out)
          case (Resolve response)
          then have "f srv clk (nextUrl response) (repos @ data response) w2 = Some y"
            using "1"(2) Some False g by simp
          then have "files (snd y) = files w2" by (rule "1"(1))
          then show ?thesis using fw by simp
        next
          case (Reject e)
          show ?thesis
          proof (cases "e = Status 403")
            case True
            then have "f srv clk url repos (sleep 60000 w2) = Some y"
              using "1"(2) Some False g Reject by simp
            then have "files (snd y) = files (sleep 60000 w2)" by (rule "1"(1))
            then show ?thesis using fw by (simp add: files_sleep)
          next
            case e: False
            then have "y = (Inl e, w2)" using "1"(2) Some False g Reject by simp
            then show ?thesis using fw by simp
          qed
        qed
      qed
    qed
  qed
  then show ?thesis using assms by fastforce
qed

lemma validateOrg_files:
  assumes "validateOrg srv clk url w = Some (res, w1)"
  shows "files w1 = files w"
proof -
  have "files (snd y) = files w" if "validateOrg srv clk url w = Some y" for y
    using that
  proof (rule validateOrg.raw_induct [rotated 1], goal_cases)
    case (1 f srv clk url w y)
    show ?case
    proof (cases url)
      case None
      then show ?thesis using "1"(2) by auto
    next
      case (Some u)
      show ?thesis
      proof (cases "u = []")
        case True
        then show ?thesis using "1"(2) Some by auto
      next
        case False
        obtain out w2 where g: "axiosInstance_get srv clk u w = (out, w2)"
          by (cases "axiosInstance_get srv clk u w")
        then have fw: "files w2 = files w" using axiosInstance_get_world by blast
        show ?thesis
        proof (cases out)
          case (Resolve response)
          then have "f srv clk None w2 = Some y"
            using "1"(2) Some False g by simp
          then have "files (snd y) = files w2" by (rule "1"(1))
          then show ?thesis using fw by simp
        next
          case (Reject e)
          show ?thesis
          proof (cases "e = Status 401 \<or> e = Status 404")
            case True
            then have "y = (Inl (Exited 1), w2)" using "1"(2) Some False g Reject by auto
            then show ?thesis using fw by simp
          next
            case n: False
            show ?thesis
            proof (cases "e = Status 403")
              case True
              then have "f srv clk url (sleep 60000 w2) = Some y"
                using "1"(2) Some False g Reject by simp
              then have "files (snd y) = files (sleep 60000 w2)" by (rule "1"(1))
              then show ?thesis using fw by (simp add: files_sleep)
            next
              case False
              then have "y = (Inl (Threw e), w2)" using "1"(2) Some \<open>u \<noteq> []\<close> g Reject n by simp
              then show ?thesis using fw by simp
            qed
          qed
        qed
      qed
    qed
  qed
  then show ?thesis using assms by fastforce
qed

lemma getOrgOwners_files:
  "getOrgOwners srv clk org w = (res, w1) \<Longrightarrow> files w1 = files w"
proof -
  obtain out w2 where g: "axiosInstance_get srv clk (membersUrl org) w = (out, w2)"
    by (cases "axiosInstance_get srv clk (membersUrl org) w")
  then have "files w2 = files w" using axiosInstance_get_world by blast
  then show "getOrgOwners srv clk org w = (res, w1) \<Longrightarrow> ?thesis"
    using g by (cases out) (auto simp: getOrgOwners_def)
qed

lemma getBranchProtectionRules_files:
  "getBranchProtectionRules srv clk org r w = (res, w1) \<Longrightarrow> files w1 = files w"
proof -
  obtain out w2 where g: "axiosInstance_get srv clk (protectionUrl org r) w = (out, w2)"
    by (cases "axiosInstance_get srv clk (protectionUrl org r) w")
  then have "files w2 = files w" using axiosInstance_get_world by blast
  then show "getBranchProtectionRules srv clk org r w = (res, w1) \<Longrightarrow> ?thesis"
    using g by (cases out) (auto simp: getBranchProtectionRules_def split: if_splits)
qed

lemma getRepoAdmins_files:
  "getRepoAdmins srv clk org r w = (res, w1) \<Longrightarrow> files w1 = files w"
proof -
  obtain out w2 where g: "axiosInstance_get srv clk (collaboratorsUrl org r) w = (out, w2)"
    by (cases "axiosInstance_get srv clk (collaboratorsUrl org r) w")
  then have "files w2 = files w" using axiosInstance_get_world by blast
  then show "getRepoAdmins srv clk org r w = (res, w1) \<Longrightarrow> ?thesis"
    using g by (cases out) (auto simp: getRepoAdmins_def)
qed

lemma reportRepos_appends:
  assumes "files w fileName = Some old"
    and "reportRepos api org orgOwners fileName parse repos w = (res, w1)"
  shows "\<exists>rows. length rows \<le> length repos \<and>
           map repo rows = map name (take (length rows) repos) \<and>
           files w1 fileName = Some (old @ concat (map (reportLine parse) rows)) \<and>
           (res = Inr () \<longrightarrow> length rows = length repos)"
  using assms
proof (induction repos arbitrary: w old)
  case Nil
  then show ?case by auto
next
  case (Cons r repos)
  obtain o1 w2 where g1:
    "getBranchProtectionRules (protectionReply api) (clock api) org r w = (o1, w2)"
    by (cases "getBranchProtectionRules (protectionReply api) (clock api) org r w")
  then have f2: "files w2 = files w" by (rule getBranchProtectionRules_files)
  show ?case
  proof (cases o1)
    case (Inl e)
    then have "w1 = w2" "res = Inl e" using Cons.prems(2) g1 by simp_all
    then show ?thesis using f2 Cons.prems(1) by (intro exI [of _ "[]"]) simp
  next
    case (Inr rl)
    obtain o2 w3 where g2:
      "getRepoAdmins (collaboratorsReply api) (clock api) org r w2 = (o2, w3)"
      by (cases "getRepoAdmins (collaboratorsReply api) (clock api) org r w2")
    then have f3: "files w3 = files w" using getRepoAdmins_files f2 by metis
    show ?thesis
    proof (cases o2)
      case (Inl e)
      then have "w1 = w3" "res = Inl e" using Cons.prems(2) g1 g2 Inr by simp_all
      then show ?thesis using f3 Cons.prems(1) by (intro exI [of _ "[]"]) simp
    next
      case fetched: (Inr fetched)
      define row where "row = reportRow r rl (adminExceptions orgOwners fetched)"
      define w4 where "w4 = appendFileSync fileName (reportLine parse row) w3"
      have run: "reportRepos api org orgOwners fileName parse repos w4 = (res, w1)"
        using Cons.prems(2) g1 g2 Inr fetched by (simp add: row_def w4_def)
      have f4: "files w4 fileName = Some (old @ reportLine parse row)"
        by (simp add: w4_def files_appendFileSync f3 Cons.prems(1))
      obtain rows where rows: "length rows \<le> length repos"
          "map repo rows = map name (take (length rows) repos)"
          "files w1 fileName = Some ((old @ reportLine parse row) @ concat (map (reportLine parse) rows))"
          "res = Inr () \<longrightarrow> length rows = length repos"
        using Cons.IH [OF f4 run] by blast
      have "repo row = name r" by (simp add: row_def reportRow_def)
      then show ?thesis using rows by (intro exI [of _ "row # rows"]) simp
    qed
  qed
qed

text \<open>
  Claim C1 does not hold of every list: lines 211-212 catch nothing but the 404 of the
  protection lookup, so a lookup that fails otherwise ends the loop. With the protection
  lookup of the second of two repositories answered 500, the loop throws that error and the
  report holds the header and the row of the first repository only.
\<close>

theorem reportRepos_failed_lookup_counterexample:
  "map name exampleRepos = [''app'', ''docs''] \<and>
   fst (reportRepos brokenApi ''acme'' [''alice''] ''report.csv'' exampleParse exampleRepos
          (writeFileSync ''report.csv'' headerText emptyWorld)) = Inl (Status 500) \<and>
   files (snd (reportRepos brokenApi ''acme'' [''alice''] ''report.csv'' exampleParse
                 exampleRepos (writeFileSync ''report.csv'' headerText emptyWorld)))
     ''report.csv'' = Some (headerText @ ''app,main,true,carol'' @ [CHR 0x0A])"
  by (simp add: brokenApi_def exampleRepos_def exampleApi_def exampleParse_def
      getBranchProtectionRules_def
      getRepoAdmins_def axiosInstance_get_def responseInterceptor_def Let_def
      protectionUrl_def collaboratorsUrl_def requested_def writeFileSync_def appendFileSync_def
      emptyWorld_def reportLine_def reportRow_def adminExceptions_def split_def startsWith_def
      trim_def isSpace_def toLowerCase_def toLowerCaseChar_def final_enabled_absent)

section \<open>Forbidden responses\<close>

lemma getRepos_loop_403:
  assumes "u \<noteq> []" and "srv (length (requested w)) u = Reject (Status 403)"
  shows "getRepos_loop srv clk (Some u) acc w =
         getRepos_loop srv clk (Some u) acc
           (w\<lparr>trace := trace w @ [Get u, SetTimeout (Num 60000)]\<rparr>)"
  by (subst getRepos_loop.simps)
    (simp add: assms axiosInstance_get_Reject [of srv w u "Status 403" clk] sleep_def)

lemma getRepos_loop_throws:
  assumes "u \<noteq> []" and "srv (length (requested w)) u = Reject e" and "e \<noteq> Status 403"
  shows "getRepos_loop srv clk (Some u) acc w = Some (Inl e, w\<lparr>trace := trace w @ [Get u]\<rparr>)"
  by (subst getRepos_loop.simps)
    (simp add: assms axiosInstance_get_Reject [of srv w u e clk])

lemma getRepos_loop_403_returns:
  assumes "getRepos_loop srv clk url acc w = Some res"
  shows "\<not> ((\<forall>k. srv k u = Reject (Status 403)) \<and> url = Some u \<and> u \<noteq> [])"
  using assms
proof (rule getRepos_loop.raw_induct [rotated 1], goal_cases)
  case (1 f srv clk url repos w res)
  show ?case
  proof
    assume a: "(\<forall>k. srv k u = Reject (Status 403)) \<and> url = Some u \<and> u \<noteq> []"
    then have "axiosInstance_get srv clk u w = (Reject (Status 403), w\<lparr>trace := trace w @ [Get u]\<rparr>)"
      by (simp add: axiosInstance_get_Reject)
    then have "f srv clk (Some u) repos (sleep 60000 (w\<lparr>trace := trace w @ [Get u]\<rparr>)) = Some res"
      using "1"(2) a by simp
    then have "\<not> ((\<forall>k. srv k u = Reject (Status 403)) \<and> Some u = Some u \<and> u \<noteq> [])"
      by (rule "1"(1))
    then show False using a by simp
  qed
qed

lemma getRepos_loop_403_forever:
  assumes "\<forall>k. srv k u = Reject (Status 403)" and "u \<noteq> []"
  shows "getRepos_loop srv clk (Some u) acc w = None"
proof (cases "getRepos_loop srv clk (Some u) acc w")
  case None
  then show ?thesis .
next
  case (Some res)
  then show ?thesis using getRepos_loop_403_returns [OF Some, of u] assms by simp
qed

lemma validateOrg_403:
  assumes "u \<noteq> []" and "srv (length (requested w)) u = Reject (Status 403)"
  shows "validateOrg srv clk (Some u) w =
         validateOrg srv clk (Some u) (w\<lparr>trace := trace w @ [Get u, SetTimeout (Num 60000)]\<rparr>)"
  by (subst validateOrg.simps)
    (simp add: assms axiosInstance_get_Reject [of srv w u "Status 403" clk] sleep_def)

lemma getRepoAdmins_Reject:
  "srv (length (requested w)) (collaboratorsUrl org r) = Reject e \<Longrightarrow>
   getRepoAdmins srv clk org r w = (Inl e, w\<lparr>trace := trace w @ [Get (collaboratorsUrl org r)]\<rparr>)"
  by (simp add: getRepoAdmins_def axiosInstance_get_Reject)

lemma getOrgOwners_Reject:
  "srv (length (requested w)) (membersUrl org) = Reject e \<Longrightarrow>
   getOrgOwners srv clk org w = (Inl e, w\<lparr>trace := trace w @ [Get (membersUrl org)]\<rparr>)"
  by (simp add: getOrgOwners_def axiosInstance_get_Reject)

text \<open>
  Claim C4 holds of the two loops that catch a 403 (getRepos, lemmas \<open>getRepos_loop_403\<close> and
  \<open>getRepos_loop_403_forever\<close>, and the organisation lookup, lemma \<open>validateOrg_403\<close>), and of
  401 everywhere (lemma \<open>getRepos_loop_throws\<close>). It does not hold of the requests sent by
  getRepoAdmins, getBranchProtectionRules and getOrgOwners, which have no such handler:
  answered 403, each throws at once, without a timer and without a second request, and a
  run whose collaborator lookup is answered 403 ends with that error after writing the
  header only. The last conjunct is the retry in getRepos, for comparison.
\<close>

theorem forbidden_not_retried_in_lookups:
  "getRepoAdmins (\<lambda>k u. Reject (Status 403)) (\<lambda>k. 0) ''acme''
     \<lparr>name = ''app'', default_branch = ''main''\<rparr> emptyWorld
   = (Inl (Status 403),
      emptyWorld\<lparr>trace := [Get ''https://api.github.com/repos/acme/app/collaborators?permission=admin'']\<rparr>) \<and>
   getBranchProtectionRules (\<lambda>k u. Reject (Status 403)) (\<lambda>k. 0) ''acme''
     \<lparr>name = ''app'', default_branch = ''main''\<rparr> emptyWorld
   = (Inl (Status 403),
      emptyWorld\<lparr>trace := [Get ''https://api.github.com/repos/acme/app/branches/main/protection'']\<rparr>) \<and>
   getOrgOwners (\<lambda>k u. Reject (Status 403)) (\<lambda>k. 0) ''acme'' emptyWorld
   = (Inl (Status 403),
      emptyWorld\<lparr>trace := [Get ''https://api.github.com/orgs/acme/members?role=admin'']\<rparr>) \<and>
   (\<exists>w1. main \<lparr>githubToken = ''secret'', orgName = ''acme''\<rparr> rateLimitedApi exampleDate
            exampleParse emptyWorld = Some (Threw (Status 403), w1) \<and>
         trace w1 =
           [Get ''https://api.github.com/orgs/acme'',
            Get ''https://api.github.com/orgs/acme/members?role=admin'',
            Get ''https://api.github.com/orgs/acme/repos?per_page=100'',
            Get ''https://api.github.com/repos/acme/app/branches/main/protection'',
            Get ''https://api.github.com/repos/acme/app/collaborators?permission=admin''] \<and>
         files w1 ''acme-2024-1-5_9:3:7-branch-protection-report.csv'' = Some headerText) \<and>
   getRepos (\<lambda>k u. if k = 0 then Reject (Status 403)
                     else Resolve \<lparr>data = [''app''], headers = (\<lambda>h. None)\<rparr>)
     (\<lambda>k. 0) ''acme'' emptyWorld
   = Some (Inr [''app''],
           emptyWorld\<lparr>trace := [Get ''https://api.github.com/orgs/acme/repos?per_page=100'',
                                 SetTimeout (Num 60000),
                                 Get ''https://api.github.com/orgs/acme/repos?per_page=100'']\<rparr>)"
  by (simp add: main_def validateOrg.simps getRepos_def getRepos_loop.simps nextUrl_def
      getOrgOwners_def orgUrl_def membersUrl_def reposUrl_def reportFileName_def exampleDate_def
      decimal.simps rateLimitedApi_def sleep_def
      exampleRepos_def exampleApi_def exampleParse_def getBranchProtectionRules_def
      getRepoAdmins_def axiosInstance_get_def responseInterceptor_def Let_def
      protectionUrl_def collaboratorsUrl_def requested_def writeFileSync_def appendFileSync_def
      emptyWorld_def)

section \<open>The header line\<close>

text \<open>
  A report file that a run of \<open>main\<close> has created starts with the string of line 207, so
  its first line is the header followed by a blank.
\<close>

lemma main_report_starts_with_header:
  assumes run: "main cfg api today parse w = Some (out, w1)"
    and fresh: "files w (reportFileName (orgName cfg) today) = None"
    and written: "files w1 (reportFileName (orgName cfg) today) = Some content"
  shows "\<exists>rest. content = headerText @ rest"
proof -
  let ?f = "reportFileName (orgName cfg) today"
  have args: "\<not> (githubToken cfg = [] \<or> orgName cfg = [])"
    using run fresh written by (auto simp: main_def)
  obtain v wv where v: "validateOrg (orgReply api) (clock api) (Some (orgUrl (orgName cfg))) w = Some (v, wv)"
    using run args by (cases "validateOrg (orgReply api) (clock api) (Some (orgUrl (orgName cfg))) w")
      (auto simp: main_def)
  have fv: "files wv = files w" using v by (rule validateOrg_files)
  have v_ok: "v = Inr ()"
  proof (cases v)
    case (Inl e)
    then have "w1 = wv" using run args v by (simp add: main_def)
    then show ?thesis using fv fresh written by simp
  next
    case (Inr u)
    then show ?thesis by simp
  qed
  obtain ow wo where o: "getOrgOwners (membersReply api) (clock api) (orgName cfg) wv = (ow, wo)"
    by (cases "getOrgOwners (membersReply api) (clock api) (orgName cfg) wv")
  have fo: "files wo = files w" using getOrgOwners_files [OF o] fv by simp
  obtain owners where owners: "ow = Inr owners"
  proof (cases ow)
    case (Inl e)
    then have "w1 = wo" using run args v v_ok o by (simp add: main_def)
    then show ?thesis using fo fresh written by simp
  next
    case (Inr owners)
    then show ?thesis using that by simp
  qed
  obtain g wg where g: "getRepos (reposReply api) (clock api) (orgName cfg) wo = Some (g, wg)"
    using run args v v_ok o owners
    by (cases "getRepos (reposReply api) (clock api) (orgName cfg) wo")
      (auto simp: main_def Let_def)
  have fg: "files wg = files w"
    using g getRepos_loop_files fo unfolding getRepos_def by metis
  obtain repos where repos: "g = Inr repos"
  proof (cases g)
    case (Inl e)
    then have "w1 = wg" using run args v v_ok o owners g by (simp add: main_def Let_def)
    then show ?thesis using fg fresh written by simp
  next
    case (Inr repos)
    then show ?thesis using that by simp
  qed
  define w4 where "w4 = writeFileSync ?f headerText wg"
  have f4: "files w4 ?f = Some headerText" by (simp add: w4_def writeFileSync_def)
  obtain res w5 where l: "reportRepos api (orgName cfg) (map toLowerCase owners) ?f parse repos w4 = (res, w5)"
    by (cases "reportRepos api (orgName cfg) (map toLowerCase owners) ?f parse repos w4")
  have "w1 = w5"
    using run args v v_ok o owners g repos l
    by (cases res) (simp_all add: main_def Let_def w4_def)
  then show ?thesis using reportRepos_appends [OF f4 l] written by auto
qed

lemma first_line_of_report:
  assumes "main cfg api today parse w = Some (out, w1)"
    and "files w (reportFileName (orgName cfg) today) = None"
    and "files w1 (reportFileName (orgName cfg) today) = Some content"
  shows "takeWhile (\<lambda>c. c \<noteq> CHR 0x0A) content =
    ''repo,branch,enabled,required_pull_request_reviews_count,required_pull_request_reviews_code_owners,restrictions,required_signatures,enforce_admins,required_linear_history,allow_force_pushes,allow_deletions,block_creations,admins ''"
proof -
  obtain rest where "content = headerText @ rest"
    using main_report_starts_with_header [OF assms] by blast
  then show ?thesis by (simp add: headerText_def)
qed

text \<open>
  Claim C9 says that the first line of the report is the header string ending in
  \<open>admins\<close>. The string written at line 207 has a blank between \<open>admins\<close> and the line feed;
  the rows are appended without one. In the run of the example organisation the first
  line of the file is the header followed by a blank.
\<close>

theorem header_line_ends_with_blank:
  "\<exists>w1 content.
     main \<lparr>githubToken = ''secret'', orgName = ''acme''\<rparr> exampleApi exampleDate exampleParse
       emptyWorld = Some (Returned, w1) \<and>
     files w1 ''acme-2024-1-5_9:3:7-branch-protection-report.csv'' = Some content \<and>
     takeWhile (\<lambda>c. c \<noteq> CHR 0x0A) content =
       ''repo,branch,enabled,required_pull_request_reviews_count,required_pull_request_reviews_code_owners,restrictions,required_signatures,enforce_admins,required_linear_history,allow_force_pushes,allow_deletions,block_creations,admins '' \<and>
     takeWhile (\<lambda>c. c \<noteq> CHR 0x0A) content \<noteq>
       ''repo,branch,enabled,required_pull_request_reviews_count,required_pull_request_reviews_code_owners,restrictions,required_signatures,enforce_admins,required_linear_history,allow_force_pushes,allow_deletions,block_creations,admins''"
proof -
  obtain w1 where w1:
      "main \<lparr>githubToken = ''secret'', orgName = ''acme''\<rparr> exampleApi exampleDate exampleParse
         emptyWorld = Some (Returned, w1)"
      "files w1 ''acme-2024-1-5_9:3:7-branch-protection-report.csv'' =
         Some (headerText @ ''app,main,true,carol'' @ [CHR 0x0A] @ ''docs,trunk,false,'' @ [CHR 0x0A])"
    using example_main by blast
  show ?thesis
    apply (rule exI [of _ w1])
    apply (rule exI [of _ "headerText @ ''app,main,true,carol'' @ [CHR 0x0A] @ ''docs,trunk,false,'' @ [CHR 0x0A]"])
    apply (simp add: w1 headerText_def)
    done
qed

end
